theory Spec2Isabelle
  imports Main "HOL-Library.AList"
begin


section \<open>The document tree\<close>

text \<open>
  Both scripts work on the value that \<^verbatim>\<open>yaml.parse\<close> returns: null, a boolean, a number,
  a string, an array, or a plain object. An object is modelled by the list of its own
  entries in the order in which they were made; a real object has every
  key once (\<open>wf_json\<close> below). Numbers are the integers. A string is the list of the bytes
  of its UTF-8 form. A property that is absent reads as \<^verbatim>\<open>undefined\<close>, which is \<open>None\<close> here.
  Members inherited from the prototypes (methods such as \<^verbatim>\<open>toString\<close>) are not part of a
  document and are not modelled: keys are taken not to name them.
\<close>

datatype json =
    JNull
  | JBool bool
  | JNum int
  | JStr string
  | JArr "json list"
  | JObj "(string \<times> json) list"

datatype error = TypeError

text \<open>JavaScript truthiness: \<^verbatim>\<open>null\<close>, \<^verbatim>\<open>false\<close>, \<^verbatim>\<open>0\<close> and \<^verbatim>\<open>""\<close> are falsy.\<close>

fun truthy :: "json \<Rightarrow> bool" where
  "truthy JNull = False"
| "truthy (JBool b) = b"
| "truthy (JNum n) = (n \<noteq> 0)"
| "truthy (JStr s) = (s \<noteq> [])"
| "truthy (JArr xs) = True"
| "truthy (JObj kvs) = True"

text \<open>\<^verbatim>\<open>undefined\<close> is falsy as well.\<close>

fun truthy_opt :: "json option \<Rightarrow> bool" where
  "truthy_opt None = False"
| "truthy_opt (Some v) = truthy v"

text \<open>\<^verbatim>\<open>typeof v === 'object'\<close> for a value that is not null: arrays and plain objects.\<close>

fun is_object :: "json \<Rightarrow> bool" where
  "is_object (JArr xs) = True"
| "is_object (JObj kvs) = True"
| "is_object v = False"

text \<open>\<^verbatim>\<open>v && typeof v === 'object' && !Array.isArray(v)\<close>: a mapping.\<close>

fun is_mapping :: "json \<Rightarrow> bool" where
  "is_mapping (JObj kvs) = True"
| "is_mapping v = False"

text \<open>Decimal numerals, as \<^verbatim>\<open>String(i)\<close> prints an array index or an integer.\<close>

definition digit_char :: "nat \<Rightarrow> char" where
  "digit_char d = ''0123456789'' ! d"

fun show_nat :: "nat \<Rightarrow> string" where
  "show_nat n = (if n < 10 then [digit_char n] else show_nat (n div 10) @ [digit_char (n mod 10)])"

declare show_nat.simps [simp del]

definition show_int :: "int \<Rightarrow> string" where
  "show_int i = (if i < 0 then CHR ''-'' # show_nat (nat (- i)) else show_nat (nat i))"

text \<open>A key made of decimal digits only, and the number that it writes.\<close>

definition is_digit :: "char \<Rightarrow> bool" where
  "is_digit c = (c \<in> set ''0123456789'')"

definition all_digits :: "string \<Rightarrow> bool" where
  "all_digits k = list_all is_digit k"

definition key_number :: "string \<Rightarrow> int" where
  "key_number k = foldl (\<lambda>n c. 10 * n + (of_char c - 48)) 0 k"

text \<open>An integer-like key (an array index): the numeral, as \<^verbatim>\<open>String\<close> prints it, of an
  integer from 0 to \<open>2\<^sup>3\<^sup>2 - 2\<close>. It has no leading zero.\<close>

definition index_key :: "string \<Rightarrow> bool" where
  "index_key k =
     (k \<noteq> [] \<and> all_digits k \<and> (k = ''0'' \<or> hd k \<noteq> CHR ''0'') \<and> key_number k < 4294967295)"

text \<open>
  The list of an object holds its entries in the order in which they were made.
  \<^verbatim>\<open>Object.keys\<close>, \<^verbatim>\<open>Object.entries\<close>, a spread and \<^verbatim>\<open>JSON.stringify\<close> go through them in the
  order of the own property keys: the integer-like keys first, in ascending order, then
  the other keys in the order in which they were made.
\<close>

definition key_order :: "(string \<times> 'a) list \<Rightarrow> (string \<times> 'a) list" where
  "key_order kvs =
     sort_key (\<lambda>e. key_number (fst e)) (filter (\<lambda>e. index_key (fst e)) kvs) @
     filter (\<lambda>e. \<not> index_key (fst e)) kvs"

text \<open>The own enumerable entries of a value, as \<^verbatim>\<open>Object.entries\<close> lists them: the entries
  of an object, the elements of an array under their indices, the characters of a string
  under theirs, and nothing for the other primitives.\<close>

definition index_entries :: "json list \<Rightarrow> (string \<times> json) list" where
  "index_entries xs = zip (map show_nat [0 ..< length xs]) xs"

fun entries :: "json \<Rightarrow> (string \<times> json) list" where
  "entries (JObj kvs) = key_order kvs"
| "entries (JArr xs) = index_entries xs"
| "entries (JStr s) = index_entries (map (\<lambda>c. JStr [c]) s)"
| "entries v = []"

text \<open>Reading a property, \<^verbatim>\<open>v[k]\<close> or \<^verbatim>\<open>v?.[k]\<close>. On \<^verbatim>\<open>null\<close> the plain form throws; the
  callers that can meet \<^verbatim>\<open>null\<close> there say so themselves, and \<open>get_prop JNull\<close> is the
  optional-chaining result.\<close>

fun get_prop :: "json \<Rightarrow> string \<Rightarrow> json option" where
  "get_prop (JObj kvs) k = map_of kvs k"
| "get_prop (JArr xs) k =
     (if k = ''length'' then Some (JNum (int (length xs))) else map_of (index_entries xs) k)"
| "get_prop (JStr s) k =
     (if k = ''length'' then Some (JNum (int (length s)))
      else map_of (index_entries (map (\<lambda>c. JStr [c]) s)) k)"
| "get_prop v k = None"

text \<open>Optional chaining on a value that may already be \<^verbatim>\<open>undefined\<close>.\<close>

fun get_opt :: "json option \<Rightarrow> string \<Rightarrow> json option" where
  "get_opt None k = None"
| "get_opt (Some v) k = get_prop v k"

text \<open>\<^verbatim>\<open>obj[k] = v\<close> on a plain object: an existing key keeps its place, a new key goes
  last. On anything else the model leaves the value alone: an assignment to a property of
  a primitive is ignored (the scripts are not in strict mode), and a named property put on
  an array is not an element of it and is not written by \<^verbatim>\<open>yaml.stringify\<close>.\<close>

fun set_prop :: "json \<Rightarrow> string \<Rightarrow> json \<Rightarrow> json" where
  "set_prop (JObj kvs) k v = JObj (AList.update k v kvs)"
| "set_prop w k v = w"

section \<open>strip-deprecated.js\<close>

subsection \<open>getSchemaNameFromRef\<close>

text \<open>The dot of a pattern matches every character but a line terminator: the line feed,
  the carriage return, and the separators U+2028 and U+2029, which are three bytes each in
  a string held in UTF-8.\<close>

definition line_terminators :: "string list" where
  "line_terminators =
     [[CHR 0x0A], [CHR 0x0D], [CHR 0xE2, CHR 0x80, CHR 0xA8], [CHR 0xE2, CHR 0x80, CHR 0xA9]]"

definition at_line_terminator :: "string \<Rightarrow> bool" where
  "at_line_terminator s = list_ex (\<lambda>t. take (length t) s = t) line_terminators"

text \<open>What \<^verbatim>\<open>.*\<close> matches at the start of a string: the characters before the first line
  terminator.\<close>

fun dot_run :: "string \<Rightarrow> string" where
  "dot_run [] = []"
| "dot_run (c # cs) = (if at_line_terminator (c # cs) then [] else c # dot_run cs)"

definition schemas_prefix :: string where
  "schemas_prefix = ''#/components/schemas/''"

text \<open>\<^verbatim>\<open>ref.match(/^#\/components\/schemas\/(.+)$/)\<close>: the whole string is the prefix followed
  by one or more characters that the dot matches, up to the end; the group is what
  follows the prefix.\<close>

definition match_anchored :: "string \<Rightarrow> string option" where
  "match_anchored s =
     (let n = length schemas_prefix; rest = drop n s in
      if take n s = schemas_prefix \<and> rest \<noteq> [] \<and> dot_run rest = rest
      then Some rest else None)"

fun getSchemaNameFromRef :: "json option \<Rightarrow> string option" where
  "getSchemaNameFromRef (Some (JStr s)) = (if s = [] then None else match_anchored s)"
| "getSchemaNameFromRef r = None"

subsection \<open>isRefToDeprecatedSchema\<close>

definition isRefToDeprecatedSchema :: "json \<Rightarrow> string list \<Rightarrow> bool" where
  "isRefToDeprecatedSchema val deprecatedSchemaNames =
     (if \<not> is_mapping val \<or> deprecatedSchemaNames = [] then False
      else
        (case getSchemaNameFromRef (get_prop val ''$ref'') of
           Some directRef \<Rightarrow> directRef \<in> set deprecatedSchemaNames
         | None \<Rightarrow> False)
        \<or>
        (get_prop val ''type'' = Some (JStr ''array'') \<and>
         truthy_opt (get_prop val ''items'') \<and>
         (case get_prop val ''items'' of
            Some items \<Rightarrow>
              is_object items \<and> truthy_opt (get_prop items ''$ref'') \<and>
              (case getSchemaNameFromRef (get_prop items ''$ref'') of
                 Some itemsRef \<Rightarrow> itemsRef \<in> set deprecatedSchemaNames
               | None \<Rightarrow> False)
          | None \<Rightarrow> False)))"

subsection \<open>buildDeprecatedSchemaNames\<close>

text \<open>The set of names is kept as the list of the additions, in order.\<close>

definition deprecated_entry :: "string \<times> json \<Rightarrow> bool" where
  "deprecated_entry e =
     (truthy (snd e) \<and> is_object (snd e) \<and> get_prop (snd e) ''deprecated'' = Some (JBool True))"

definition buildDeprecatedSchemaNames :: "json \<Rightarrow> string list" where
  "buildDeprecatedSchemaNames spec =
     (case get_opt (get_prop spec ''components'') ''schemas'' of
        None \<Rightarrow> []
      | Some schemas \<Rightarrow>
          if \<not> truthy schemas \<or> \<not> is_object schemas then []
          else map fst (filter deprecated_entry (entries schemas)))"

subsection \<open>stripDeprecated\<close>

text \<open>\<^verbatim>\<open>delete result[key].deprecated\<close>, done when \<^verbatim>\<open>result[key]\<close> is an object that has
  the key; an array never has it.\<close>

fun delete_deprecated :: "json \<Rightarrow> json" where
  "delete_deprecated (JObj kvs) = JObj (AList.delete ''deprecated'' kvs)"
| "delete_deprecated v = v"

text \<open>The property is skipped when its value is a mapping with \<^verbatim>\<open>deprecated === true\<close>.\<close>

definition marked_deprecated :: "json \<Rightarrow> bool" where
  "marked_deprecated val = (is_mapping val \<and> get_prop val ''deprecated'' = Some (JBool True))"

fun stripDeprecated :: "json \<Rightarrow> string list \<Rightarrow> json"
  and strip_elems :: "json list \<Rightarrow> string list \<Rightarrow> json list"
  and strip_entries :: "(string \<times> json) list \<Rightarrow> string list \<Rightarrow> (string \<times> json) list"
where
  "stripDeprecated (JArr xs) D = JArr (strip_elems xs D)"
| "stripDeprecated (JObj kvs) D = JObj (strip_entries kvs D)"
| "stripDeprecated JNull D = JNull"
| "stripDeprecated (JBool b) D = JBool b"
| "stripDeprecated (JNum n) D = JNum n"
| "stripDeprecated (JStr s) D = JStr s"
| "strip_elems [] D = []"
| "strip_elems (v # vs) D = stripDeprecated v D # strip_elems vs D"
| "strip_entries [] D = []"
| "strip_entries ((key, val) # rest) D =
     (if marked_deprecated val then strip_entries rest D
      else if isRefToDeprecatedSchema val D then strip_entries rest D
      else (key, delete_deprecated (stripDeprecated val D)) # strip_entries rest D)"

subsection \<open>ensureWideMode\<close>

definition OPERATION_METHODS :: "string list" where
  "OPERATION_METHODS =
     [''get'', ''put'', ''post'', ''delete'', ''options'', ''head'', ''patch'', ''trace'']"

definition wide_metadata :: json where
  "wide_metadata = JObj [(''mode'', JStr ''wide'')]"

text \<open>The last two statements of the loop body, for an \<^verbatim>\<open>op['x-mint']\<close> that is truthy.
  When \<^verbatim>\<open>metadata\<close> is truthy, \<^verbatim>\<open>mode\<close> is assigned on it (with no effect on the document
  when it is not a plain object). When it is falsy, a new object is assigned first; on a
  primitive \<^verbatim>\<open>x-mint\<close> that assignment is ignored, \<^verbatim>\<open>metadata\<close> stays \<^verbatim>\<open>undefined\<close> and the
  assignment of \<^verbatim>\<open>mode\<close> throws.\<close>

definition stamp_xmint :: "json \<Rightarrow> error + json" where
  "stamp_xmint xm =
     (case get_prop xm ''metadata'' of
        Some md \<Rightarrow>
          if truthy md then Inr (set_prop xm ''metadata'' (set_prop md ''mode'' (JStr ''wide'')))
          else if is_object xm then Inr (set_prop xm ''metadata'' wide_metadata)
          else Inl TypeError
      | None \<Rightarrow>
          if is_object xm then Inr (set_prop xm ''metadata'' wide_metadata)
          else Inl TypeError)"

text \<open>The loop body for an \<^verbatim>\<open>op\<close> that is a truthy object.\<close>

definition stamp_op :: "json \<Rightarrow> error + json" where
  "stamp_op op =
     (case get_prop op ''x-mint'' of
        Some xm \<Rightarrow>
          if truthy xm then
            (case stamp_xmint xm of
               Inl e \<Rightarrow> Inl e
             | Inr xm' \<Rightarrow> Inr (set_prop op ''x-mint'' xm'))
          else Inr (set_prop op ''x-mint'' (JObj [(''metadata'', wide_metadata)]))
      | None \<Rightarrow> Inr (set_prop op ''x-mint'' (JObj [(''metadata'', wide_metadata)])))"

text \<open>The inner loop over the keys of one path item.\<close>

fun stamp_entries :: "(string \<times> json) list \<Rightarrow> error + (string \<times> json) list" where
  "stamp_entries [] = Inr []"
| "stamp_entries ((key, op) # rest) =
     (if key \<in> set OPERATION_METHODS \<and> truthy op \<and> is_object op then
        (case stamp_op op of
           Inl e \<Rightarrow> Inl e
         | Inr op' \<Rightarrow>
             (case stamp_entries rest of
                Inl e \<Rightarrow> Inl e
              | Inr rest' \<Rightarrow> Inr ((key, op') # rest')))
      else
        (case stamp_entries rest of
           Inl e \<Rightarrow> Inl e
         | Inr rest' \<Rightarrow> Inr ((key, op) # rest')))"

text \<open>One path item. The keys of an array are its indices, and none names a method.\<close>

fun stamp_path_item :: "json \<Rightarrow> error + json" where
  "stamp_path_item (JObj kvs) =
     (case stamp_entries kvs of Inl e \<Rightarrow> Inl e | Inr kvs' \<Rightarrow> Inr (JObj kvs'))"
| "stamp_path_item pathItem = Inr pathItem"

text \<open>The outer loop over \<^verbatim>\<open>Object.values(spec.paths)\<close>, for an object and for an array.\<close>

fun stamp_paths :: "(string \<times> json) list \<Rightarrow> error + (string \<times> json) list" where
  "stamp_paths [] = Inr []"
| "stamp_paths ((p, pathItem) # rest) =
     (case stamp_path_item pathItem of
        Inl e \<Rightarrow> Inl e
      | Inr pathItem' \<Rightarrow>
          (case stamp_paths rest of
             Inl e \<Rightarrow> Inl e
           | Inr rest' \<Rightarrow> Inr ((p, pathItem') # rest')))"

fun stamp_path_list :: "json list \<Rightarrow> error + json list" where
  "stamp_path_list [] = Inr []"
| "stamp_path_list (pathItem # rest) =
     (case stamp_path_item pathItem of
        Inl e \<Rightarrow> Inl e
      | Inr pathItem' \<Rightarrow>
          (case stamp_path_list rest of
             Inl e \<Rightarrow> Inl e
           | Inr rest' \<Rightarrow> Inr (pathItem' # rest')))"

text \<open>\<^verbatim>\<open>ensureWideMode\<close> changes the operations in place; the model returns the document
  after the call, or the \<^verbatim>\<open>TypeError\<close> that ends the script. \<^verbatim>\<open>spec.paths\<close> on \<^verbatim>\<open>null\<close>
  throws.\<close>

definition ensureWideMode :: "json \<Rightarrow> error + json" where
  "ensureWideMode spec =
     (if spec = JNull then Inl TypeError
      else
        (case get_prop spec ''paths'' of
           Some (JObj pkvs) \<Rightarrow>
             (case stamp_paths pkvs of
                Inl e \<Rightarrow> Inl e
              | Inr pkvs' \<Rightarrow> Inr (set_prop spec ''paths'' (JObj pkvs')))
         | Some (JArr ps) \<Rightarrow>
             (case stamp_path_list ps of
                Inl e \<Rightarrow> Inl e
              | Inr ps' \<Rightarrow> Inr (set_prop spec ''paths'' (JArr ps')))
         | _ \<Rightarrow> Inr spec))"

subsection \<open>main\<close>

text \<open>The document that \<^verbatim>\<open>main\<close> hands to \<^verbatim>\<open>yaml.stringify\<close>, for the document that
  \<^verbatim>\<open>yaml.parse\<close> returned.\<close>

definition filter_main :: "json \<Rightarrow> error + json" where
  "filter_main spec =
     (let deprecatedSchemaNames = buildDeprecatedSchemaNames spec;
          stripped = stripDeprecated spec deprecatedSchemaNames
      in ensureWideMode stripped)"

section \<open>Properties of documents\<close>

text \<open>A document as \<^verbatim>\<open>yaml.parse\<close> builds it: every object has each key once.\<close>

fun wf_json :: "json \<Rightarrow> bool"
  and wf_elems :: "json list \<Rightarrow> bool"
  and wf_entries :: "(string \<times> json) list \<Rightarrow> bool"
where
  "wf_json (JObj kvs) = (distinct (map fst kvs) \<and> wf_entries kvs)"
| "wf_json (JArr xs) = wf_elems xs"
| "wf_json JNull = True"
| "wf_json (JBool b) = True"
| "wf_json (JNum n) = True"
| "wf_json (JStr s) = True"
| "wf_elems [] = True"
| "wf_elems (v # vs) = (wf_json v \<and> wf_elems vs)"
| "wf_entries [] = True"
| "wf_entries ((k, v) # rest) = (wf_json v \<and> wf_entries rest)"

text \<open>\<open>all_entries P t\<close>: every key/value pair of every mapping of the tree \<open>t\<close>, at any
  depth and also inside arrays, satisfies \<open>P\<close>.\<close>

fun all_entries :: "(string \<Rightarrow> json \<Rightarrow> bool) \<Rightarrow> json \<Rightarrow> bool"
  and all_entries_list :: "(string \<Rightarrow> json \<Rightarrow> bool) \<Rightarrow> json list \<Rightarrow> bool"
  and all_entries_alist :: "(string \<Rightarrow> json \<Rightarrow> bool) \<Rightarrow> (string \<times> json) list \<Rightarrow> bool"
where
  "all_entries P (JObj kvs) = all_entries_alist P kvs"
| "all_entries P (JArr xs) = all_entries_list P xs"
| "all_entries P JNull = True"
| "all_entries P (JBool b) = True"
| "all_entries P (JNum n) = True"
| "all_entries P (JStr s) = True"
| "all_entries_list P [] = True"
| "all_entries_list P (v # vs) = (all_entries P v \<and> all_entries_list P vs)"
| "all_entries_alist P [] = True"
| "all_entries_alist P ((k, v) # rest) = (P k v \<and> all_entries P v \<and> all_entries_alist P rest)"

text \<open>A position in a document: the keys and array indices from the root.\<close>

datatype step = Key string | Idx nat

fun at_path :: "json \<Rightarrow> step list \<Rightarrow> json option" where
  "at_path v [] = Some v"
| "at_path (JObj kvs) (Key k # p) =
     (case map_of kvs k of None \<Rightarrow> None | Some v \<Rightarrow> at_path v p)"
| "at_path (JArr xs) (Idx i # p) = (if i < length xs then at_path (xs ! i) p else None)"
| "at_path v (s # p) = None"

text \<open>A mapping that has the key \<^verbatim>\<open>deprecated\<close>, whatever its value.\<close>

definition has_deprecated_key :: "json \<Rightarrow> bool" where
  "has_deprecated_key v = (is_mapping v \<and> get_prop v ''deprecated'' \<noteq> None)"

text \<open>What the walk leaves nowhere under a key: a mapping that still has the key
  \<^verbatim>\<open>deprecated\<close>, or a reference to one of the names \<open>D\<close>.\<close>

definition kept_clean :: "string list \<Rightarrow> string \<Rightarrow> json \<Rightarrow> bool" where
  "kept_clean D k v = (\<not> has_deprecated_key v \<and> \<not> isRefToDeprecatedSchema v D)"


text \<open>A name in which the dot matches every character: it has no line terminator.\<close>

definition single_line :: "string \<Rightarrow> bool" where
  "single_line s = (dot_run s = s)"

text \<open>The reference to the schema named \<open>S\<close>, as a document writes it.\<close>

definition schema_ref :: "string \<Rightarrow> json" where
  "schema_ref S = JStr (schemas_prefix @ S)"

text \<open>The value refers to the named schema \<open>S\<close>: it is a mapping whose \<^verbatim>\<open>$ref\<close> is the
  reference to \<open>S\<close>, or one with \<^verbatim>\<open>type: array\<close> whose \<^verbatim>\<open>items\<close> have that \<^verbatim>\<open>$ref\<close>.\<close>

definition refers_to :: "json \<Rightarrow> string \<Rightarrow> bool" where
  "refers_to v S =
     (is_mapping v \<and>
      (get_prop v ''$ref'' = Some (schema_ref S) \<or>
       (get_prop v ''type'' = Some (JStr ''array'') \<and>
        get_opt (get_prop v ''items'') ''$ref'' = Some (schema_ref S))))"



subsection \<open>Example documents\<close>

definition pet_schema :: json where
  "pet_schema =
     JObj [(''type'', JStr ''object''),
           (''deprecated'', JBool False),
           (''properties'', JObj
              [(''id'', JObj [(''type'', JStr ''integer'')]),
               (''old'', JObj [(''$ref'', JStr ''#/components/schemas/Old'')]),
               (''olds'', JObj [(''type'', JStr ''array''),
                               (''items'', JObj [(''$ref'', JStr ''#/components/schemas/Old'')])]),
               (''tag'', JObj [(''type'', JStr ''string''), (''deprecated'', JBool True)])])]"

definition pets_doc :: json where
  "pets_doc =
     JObj [(''openapi'', JStr ''3.0.0''),
           (''paths'', JObj
              [(''/pets'', JObj
                 [(''summary'', JStr ''Pets''),
                  (''get'', JObj
                     [(''operationId'', JStr ''listPets''),
                      (''x-mint'', JObj [(''href'', JStr ''/pets'')])])])]),
           (''components'', JObj
              [(''schemas'', JObj
                 [(''Old'', JObj [(''type'', JStr ''object''), (''deprecated'', JBool True)]),
                  (''Pet'', pet_schema)])])]"

definition pets_filtered :: json where
  "pets_filtered =
     JObj [(''openapi'', JStr ''3.0.0''),
           (''paths'', JObj
              [(''/pets'', JObj
                 [(''summary'', JStr ''Pets''),
                  (''get'', JObj
                     [(''operationId'', JStr ''listPets''),
                      (''x-mint'', JObj [(''href'', JStr ''/pets''),
                                        (''metadata'', JObj [(''mode'', JStr ''wide'')])])])])]),
           (''components'', JObj
              [(''schemas'', JObj
                 [(''Pet'', JObj [(''type'', JStr ''object''),
                                 (''properties'', JObj
                                    [(''id'', JObj [(''type'', JStr ''integer'')])])])])])]"

text \<open>A parameter list, as OpenAPI writes it: an array of parameter objects.\<close>

definition params_doc :: json where
  "params_doc =
     JObj [(''paths'', JObj
              [(''/pets'', JObj
                 [(''get'', JObj
                     [(''parameters'', JArr
                        [JObj [(''name'', JStr ''limit''), (''deprecated'', JBool True)],
                         JObj [(''name'', JStr ''page''), (''deprecated'', JBool False)]])])])])]"

definition params_filtered :: json where
  "params_filtered =
     JObj [(''paths'', JObj
              [(''/pets'', JObj
                 [(''get'', JObj
                     [(''parameters'', JArr
                        [JObj [(''name'', JStr ''limit''), (''deprecated'', JBool True)],
                         JObj [(''name'', JStr ''page''), (''deprecated'', JBool False)]]),
                      (''x-mint'', JObj [(''metadata'', JObj [(''mode'', JStr ''wide'')])])])])])]"


text \<open>A deprecated schema whose name has a line feed in it, and a property that refers to
  it.\<close>

definition two_line_name :: string where
  "two_line_name = ''Old'' @ [CHR 0x0A] @ ''Pet''"

definition two_line_doc :: json where
  "two_line_doc =
     JObj [(''info'', JObj [(''owner'', JObj [(''$ref'', schema_ref two_line_name)])]),
           (''components'', JObj
              [(''schemas'', JObj
                 [(two_line_name, JObj [(''type'', JStr ''object''), (''deprecated'', JBool True)])])])]"

section \<open>schema-to-mintlify.js\<close>

subsection \<open>Strings\<close>

text \<open>\<^verbatim>\<open>parts.join(sep)\<close> on strings.\<close>

fun join_with :: "string \<Rightarrow> string list \<Rightarrow> string" where
  "join_with sep [] = []"
| "join_with sep [x] = x"
| "join_with sep (x # y # rest) = x @ sep @ join_with sep (y # rest)"


definition dq :: string where
  "dq = [CHR 0x22]"




text \<open>\<^verbatim>\<open>JSON.stringify\<close> of a document value. A string is quoted, with the escapes of the
  quote, the backslash and the control characters.\<close>

definition hex_digit :: "nat \<Rightarrow> char" where
  "hex_digit d = ''0123456789abcdef'' ! d"

definition json_escape :: "char \<Rightarrow> string" where
  "json_escape c =
     (if c = CHR 0x22 then [CHR 0x5C, CHR 0x22]
      else if c = CHR 0x5C then [CHR 0x5C, CHR 0x5C]
      else if c = CHR 0x08 then [CHR 0x5C, CHR ''b'']
      else if c = CHR 0x0C then [CHR 0x5C, CHR ''f'']
      else if c = CHR 0x0A then [CHR 0x5C, CHR ''n'']
      else if c = CHR 0x0D then [CHR 0x5C, CHR ''r'']
      else if c = CHR 0x09 then [CHR 0x5C, CHR ''t'']
      else if of_char c < (32 :: nat) then
        [CHR 0x5C, CHR ''u'', CHR ''0'', CHR ''0'',
         hex_digit (of_char c div 16), hex_digit (of_char c mod 16)]
      else [c])"

definition json_quote :: "string \<Rightarrow> string" where
  "json_quote s = dq @ concat (map json_escape s) @ dq"

fun json_stringify :: "json \<Rightarrow> string"
  and json_stringify_list :: "json list \<Rightarrow> string list"
  and json_stringify_entries :: "(string \<times> json) list \<Rightarrow> string list"
where
  "json_stringify JNull = ''null''"
| "json_stringify (JBool b) = (if b then ''true'' else ''false'')"
| "json_stringify (JNum n) = show_int n"
| "json_stringify (JStr s) = json_quote s"
| "json_stringify (JArr xs) = ''['' @ join_with '','' (json_stringify_list xs) @ '']''"
| "json_stringify (JObj kvs) = ''{'' @ join_with '','' (json_stringify_entries kvs) @ ''}''"
| "json_stringify_list [] = []"
| "json_stringify_list (x # xs) = json_stringify x # json_stringify_list xs"
| "json_stringify_entries [] = []"
| "json_stringify_entries ((k, v) # rest) =
     (json_quote k @ '':'' @ json_stringify v) # json_stringify_entries rest"







subsection \<open>resolveRef\<close>



subsection \<open>getRefName\<close>

text \<open>\<^verbatim>\<open>ref.match(/#\/components\/schemas\/(.+)/)\<close>: the pattern is not anchored. The match
  is at the leftmost place where the prefix stands with a character after it that the dot
  matches, and the group is the rest of that line.\<close>

fun match_unanchored :: "string \<Rightarrow> string option" where
  "match_unanchored [] = None"
| "match_unanchored (c # cs) =
     (let n = length schemas_prefix;
          name = dot_run (drop n (c # cs)) in
      if take n (c # cs) = schemas_prefix \<and> name \<noteq> [] then Some name
      else match_unanchored cs)"

fun getRefName :: "json option \<Rightarrow> string option" where
  "getRefName (Some (JStr s)) = (if s = [] then None else match_unanchored s)"
| "getRefName r = None"


subsection \<open>resolveSchema\<close>



subsection \<open>getTypeString\<close>





subsection \<open>normalizeDescription, typeAttr, requiredAttr\<close>





subsection \<open>schemaToExpandableContent\<close>
























subsection \<open>schemaToMintlify\<close>











subsection \<open>main\<close>



subsection \<open>Example schemas\<close>




subsection \<open>The words of the claims about the type string of an array\<close>








subsection \<open>The words of the claim about a schema that is not there\<close>


subsection \<open>The files of a batch\<close>


subsection \<open>An object schema with three properties\<close>



subsection \<open>An object schema with integer-like property names\<close>



section \<open>stripDeprecated on a store\<close>

text \<open>
  In the script a document is a graph of objects and arrays that the values refer to, and
  \<^verbatim>\<open>delete result[key].deprecated\<close> changes an object in place. To say what the call does to
  the objects that exist when it starts, this section runs \<^verbatim>\<open>stripDeprecated\<close> on a store: a
  list of cells, the address of a cell being its index, and a new cell being added at the
  end. A value is a primitive or the address of a cell.
\<close>

datatype hval =
    HUndef
  | HNull
  | HBool bool
  | HNum int
  | HStr string
  | HRef nat

datatype cell =
    CArr "hval list"
  | CObj "(string \<times> hval) list"

type_synonym heap = "cell list"

definition cell_at :: "heap \<Rightarrow> nat \<Rightarrow> cell option" where
  "cell_at h a = (if a < length h then Some (h ! a) else None)"

text \<open>\<^verbatim>\<open>v[k]\<close> for one of the keys that the function reads (\<^verbatim>\<open>deprecated\<close>, \<^verbatim>\<open>$ref\<close>, \<^verbatim>\<open>type\<close>,
  \<^verbatim>\<open>items\<close>, or a key of the object itself): the entry of an object, and \<^verbatim>\<open>undefined\<close> on an
  array and on a primitive.\<close>

fun h_get :: "heap \<Rightarrow> hval \<Rightarrow> string \<Rightarrow> hval" where
  "h_get h (HRef a) k =
     (case cell_at h a of
        Some (CObj kvs) \<Rightarrow> (case map_of kvs k of Some v \<Rightarrow> v | None \<Rightarrow> HUndef)
      | _ \<Rightarrow> HUndef)"
| "h_get h v k = HUndef"

text \<open>\<^verbatim>\<open>value[i]\<close> for an index of the array at the address \<open>a\<close>.\<close>

definition h_elem :: "heap \<Rightarrow> nat \<Rightarrow> nat \<Rightarrow> hval" where
  "h_elem h a i =
     (case cell_at h a of
        Some (CArr xs) \<Rightarrow> if i < length xs then xs ! i else HUndef
      | _ \<Rightarrow> HUndef)"

fun h_truthy :: "hval \<Rightarrow> bool" where
  "h_truthy HUndef = False"
| "h_truthy HNull = False"
| "h_truthy (HBool b) = b"
| "h_truthy (HNum n) = (n \<noteq> 0)"
| "h_truthy (HStr s) = (s \<noteq> [])"
| "h_truthy (HRef a) = True"

text \<open>\<^verbatim>\<open>typeof v === 'object'\<close> for a truthy \<open>v\<close>, and the same with \<^verbatim>\<open>!Array.isArray(v)\<close>.\<close>

fun h_is_object :: "hval \<Rightarrow> bool" where
  "h_is_object (HRef a) = True"
| "h_is_object v = False"

fun h_is_mapping :: "heap \<Rightarrow> hval \<Rightarrow> bool" where
  "h_is_mapping h (HRef a) = (case cell_at h a of Some (CObj kvs) \<Rightarrow> True | _ \<Rightarrow> False)"
| "h_is_mapping h v = False"

fun h_schema_name :: "hval \<Rightarrow> string option" where
  "h_schema_name (HStr s) = (if s = [] then None else match_anchored s)"
| "h_schema_name v = None"

definition h_marked_deprecated :: "heap \<Rightarrow> hval \<Rightarrow> bool" where
  "h_marked_deprecated h val = (h_is_mapping h val \<and> h_get h val ''deprecated'' = HBool True)"

definition h_isRefToDeprecatedSchema :: "heap \<Rightarrow> hval \<Rightarrow> string list \<Rightarrow> bool" where
  "h_isRefToDeprecatedSchema h val deprecatedSchemaNames =
     (if \<not> h_is_mapping h val \<or> deprecatedSchemaNames = [] then False
      else
        (case h_schema_name (h_get h val ''$ref'') of
           Some directRef \<Rightarrow> directRef \<in> set deprecatedSchemaNames
         | None \<Rightarrow> False)
        \<or>
        (h_get h val ''type'' = HStr ''array'' \<and>
         h_truthy (h_get h val ''items'') \<and>
         h_is_object (h_get h val ''items'') \<and>
         h_truthy (h_get h (h_get h val ''items'') ''$ref'') \<and>
         (case h_schema_name (h_get h (h_get h val ''items'') ''$ref'') of
            Some itemsRef \<Rightarrow> itemsRef \<in> set deprecatedSchemaNames
          | None \<Rightarrow> False)))"

text \<open>The writes. \<^verbatim>\<open>result[key] = v\<close> and the filling of the new array change the cell that
  the call has made; \<^verbatim>\<open>delete result[key].deprecated\<close> changes the cell that \<^verbatim>\<open>result[key]\<close>
  refers to, when that is an object that has the key.\<close>

definition h_set_key :: "heap \<Rightarrow> nat \<Rightarrow> string \<Rightarrow> hval \<Rightarrow> heap" where
  "h_set_key h r k v =
     (case cell_at h r of
        Some (CObj kvs) \<Rightarrow> h[r := CObj (AList.update k v kvs)]
      | _ \<Rightarrow> h)"

definition h_push :: "heap \<Rightarrow> nat \<Rightarrow> hval \<Rightarrow> heap" where
  "h_push h r v =
     (case cell_at h r of
        Some (CArr xs) \<Rightarrow> h[r := CArr (xs @ [v])]
      | _ \<Rightarrow> h)"

fun h_delete_deprecated :: "heap \<Rightarrow> hval \<Rightarrow> heap" where
  "h_delete_deprecated h (HRef b) =
     (case cell_at h b of
        Some (CObj kvs) \<Rightarrow>
          if ''deprecated'' \<in> fst ` set kvs then h[b := CObj (AList.delete ''deprecated'' kvs)]
          else h
      | _ \<Rightarrow> h)"
| "h_delete_deprecated h v = h"

text \<open>
  A call takes a value and the store and returns the result and the store after the
  call, or \<open>None\<close> when it does not return (the recursion on a cyclic document has no end).
  The loops take the recursive call as their first argument. \<open>strip_indices_h\<close> is the
  callback of \<^verbatim>\<open>value.map\<close> over the indices of the array at \<open>a\<close>, filling the new array at
  \<open>r\<close>; \<open>strip_keys_h\<close> is the loop over \<^verbatim>\<open>Object.keys(value)\<close> for the object at \<open>a\<close>, filling
  the new object at \<open>r\<close>. In the loop \<^verbatim>\<open>result[key]\<close> is the value just assigned to it.
\<close>

type_synonym strip_call = "hval \<Rightarrow> heap \<Rightarrow> (hval \<times> heap) option"

fun strip_indices_h :: "strip_call \<Rightarrow> nat \<Rightarrow> nat \<Rightarrow> nat list \<Rightarrow> heap \<Rightarrow> heap option" where
  "strip_indices_h recurse a r [] h = Some h"
| "strip_indices_h recurse a r (i # rest) h =
     (case recurse (h_elem h a i) h of
        None \<Rightarrow> None
      | Some (v, h1) \<Rightarrow> strip_indices_h recurse a r rest (h_push h1 r v))"

fun strip_keys_h ::
    "strip_call \<Rightarrow> nat \<Rightarrow> nat \<Rightarrow> string list \<Rightarrow> string list \<Rightarrow> heap \<Rightarrow> heap option"
where
  "strip_keys_h recurse a r [] D h = Some h"
| "strip_keys_h recurse a r (key # rest) D h =
     (let val = h_get h (HRef a) key in
      if h_marked_deprecated h val then strip_keys_h recurse a r rest D h
      else if h_isRefToDeprecatedSchema h val D then strip_keys_h recurse a r rest D h
      else
        (case recurse val h of
           None \<Rightarrow> None
         | Some (v, h1) \<Rightarrow>
             strip_keys_h recurse a r rest D
               (h_delete_deprecated (h_set_key h1 r key v) v)))"

primrec stripDeprecated_h :: "nat \<Rightarrow> hval \<Rightarrow> string list \<Rightarrow> heap \<Rightarrow> (hval \<times> heap) option" where
  "stripDeprecated_h 0 value D h = None"
| "stripDeprecated_h (Suc fuel) value D h =
     (case value of
        HRef a \<Rightarrow>
          (case cell_at h a of
             None \<Rightarrow> None
           | Some (CArr xs) \<Rightarrow>
               (case strip_indices_h (\<lambda>v h'. stripDeprecated_h fuel v D h') a (length h)
                       [0 ..< length xs] (h @ [CArr []]) of
                  None \<Rightarrow> None
                | Some h' \<Rightarrow> Some (HRef (length h), h'))
           | Some (CObj kvs) \<Rightarrow>
               (case strip_keys_h (\<lambda>v h'. stripDeprecated_h fuel v D h') a (length h)
                       (map fst kvs) D (h @ [CObj []]) of
                  None \<Rightarrow> None
                | Some h' \<Rightarrow> Some (HRef (length h), h')))
      | _ \<Rightarrow> Some (value, h))"

text \<open>The value \<open>v\<close> of the store \<open>h\<close> is the tree \<open>t\<close>: primitives are themselves, and an
  address holds an array of values that are the elements, or an object whose entries,
  in their order, are the keys with values that are the values of the tree.\<close>

fun repr :: "heap \<Rightarrow> hval \<Rightarrow> json \<Rightarrow> bool"
  and repr_list :: "heap \<Rightarrow> hval list \<Rightarrow> json list \<Rightarrow> bool"
  and repr_entries :: "heap \<Rightarrow> (string \<times> hval) list \<Rightarrow> (string \<times> json) list \<Rightarrow> bool"
where
  "repr h v JNull = (v = HNull)"
| "repr h v (JBool b) = (v = HBool b)"
| "repr h v (JNum n) = (v = HNum n)"
| "repr h v (JStr s) = (v = HStr s)"
| "repr h v (JArr ts) =
     (case v of
        HRef a \<Rightarrow> (case cell_at h a of Some (CArr xs) \<Rightarrow> repr_list h xs ts | _ \<Rightarrow> False)
      | _ \<Rightarrow> False)"
| "repr h v (JObj kts) =
     (case v of
        HRef a \<Rightarrow> (case cell_at h a of Some (CObj kvs) \<Rightarrow> repr_entries h kvs kts | _ \<Rightarrow> False)
      | _ \<Rightarrow> False)"
| "repr_list h [] [] = True"
| "repr_list h (x # xs) (t # ts) = (repr h x t \<and> repr_list h xs ts)"
| "repr_list h [] (t # ts) = False"
| "repr_list h (x # xs) [] = False"
| "repr_entries h [] [] = True"
| "repr_entries h ((k, x) # kvs) ((k', t) # kts) = (k = k' \<and> repr h x t \<and> repr_entries h kvs kts)"
| "repr_entries h [] (kt # kts) = False"
| "repr_entries h (kv # kvs) [] = False"

text \<open>The depth of a tree: the number of nested calls that \<^verbatim>\<open>stripDeprecated\<close> makes on it.\<close>

fun depth :: "json \<Rightarrow> nat"
  and depth_list :: "json list \<Rightarrow> nat"
  and depth_entries :: "(string \<times> json) list \<Rightarrow> nat"
where
  "depth (JArr ts) = Suc (depth_list ts)"
| "depth (JObj kts) = Suc (depth_entries kts)"
| "depth JNull = 1"
| "depth (JBool b) = 1"
| "depth (JNum n) = 1"
| "depth (JStr s) = 1"
| "depth_list [] = 0"
| "depth_list (t # ts) = max (depth t) (depth_list ts)"
| "depth_entries [] = 0"
| "depth_entries ((k, t) # kts) = max (depth t) (depth_entries kts)"

text \<open>What a store keeps of another: \<open>same_except r h h'\<close> says that \<open>h'\<close> has every cell of
  \<open>h\<close> as it is in \<open>h\<close>, the cell at \<open>r\<close> apart.\<close>

definition same_except :: "nat \<Rightarrow> heap \<Rightarrow> heap \<Rightarrow> bool" where
  "same_except r h h' = (length h \<le> length h' \<and> (\<forall>b < length h. b \<noteq> r \<longrightarrow> h' ! b = h ! b))"

text \<open>A call that leaves every cell of the store as it is and returns a primitive or
  the address of a cell that it has made.\<close>

definition frame_call :: "strip_call \<Rightarrow> bool" where
  "frame_call recurse =
     (\<forall>v h v' h'. recurse v h = Some (v', h') \<longrightarrow>
        take (length h) h' = h \<and> (\<forall>b. v' = HRef b \<longrightarrow> length h \<le> b \<and> b < length h'))"

text \<open>\<open>frepr L h v t\<close>: the value \<open>v\<close> is the tree \<open>t\<close>, in cells at the addresses from \<open>L\<close> on,
  every cell before the cells of its elements or entries, as the calls allocate them.\<close>

fun frepr :: "nat \<Rightarrow> heap \<Rightarrow> hval \<Rightarrow> json \<Rightarrow> bool"
  and frepr_list :: "nat \<Rightarrow> heap \<Rightarrow> hval list \<Rightarrow> json list \<Rightarrow> bool"
  and frepr_entries :: "nat \<Rightarrow> heap \<Rightarrow> (string \<times> hval) list \<Rightarrow> (string \<times> json) list \<Rightarrow> bool"
where
  "frepr L h v JNull = (v = HNull)"
| "frepr L h v (JBool b) = (v = HBool b)"
| "frepr L h v (JNum n) = (v = HNum n)"
| "frepr L h v (JStr s) = (v = HStr s)"
| "frepr L h v (JArr ts) =
     (case v of
        HRef a \<Rightarrow>
          L \<le> a \<and> (case cell_at h a of Some (CArr xs) \<Rightarrow> frepr_list (Suc a) h xs ts | _ \<Rightarrow> False)
      | _ \<Rightarrow> False)"
| "frepr L h v (JObj kts) =
     (case v of
        HRef a \<Rightarrow>
          L \<le> a \<and> (case cell_at h a of Some (CObj kvs) \<Rightarrow> frepr_entries (Suc a) h kvs kts | _ \<Rightarrow> False)
      | _ \<Rightarrow> False)"
| "frepr_list L h [] [] = True"
| "frepr_list L h (x # xs) (t # ts) = (frepr L h x t \<and> frepr_list L h xs ts)"
| "frepr_list L h [] (t # ts) = False"
| "frepr_list L h (x # xs) [] = False"
| "frepr_entries L h [] [] = True"
| "frepr_entries L h ((k, x) # kvs) ((k', t) # kts) =
     (k = k' \<and> frepr L h x t \<and> frepr_entries L h kvs kts)"
| "frepr_entries L h [] (kt # kts) = False"
| "frepr_entries L h (kv # kvs) [] = False"

text \<open>The reads of the function agree with the reads of the tree.\<close>

definition same_read :: "heap \<Rightarrow> hval \<Rightarrow> json option \<Rightarrow> bool" where
  "same_read h y u = (case u of None \<Rightarrow> y = HUndef | Some t \<Rightarrow> repr h y t)"

subsection \<open>An example store\<close>

text \<open>An object whose property \<^verbatim>\<open>a\<close> is an object that has the key \<^verbatim>\<open>deprecated\<close>, with the
  value \<^verbatim>\<open>false\<close>.\<close>

definition small_store :: heap where
  "small_store =
     [CObj [(''a'', HRef 1), (''n'', HNum 7)],
      CObj [(''deprecated'', HBool False), (''x'', HStr ''y'')]]"

definition small_tree :: json where
  "small_tree =
     JObj [(''a'', JObj [(''deprecated'', JBool False), (''x'', JStr ''y'')]), (''n'', JNum 7)]"

definition small_store_after :: heap where
  "small_store_after =
     [CObj [(''a'', HRef 1), (''n'', HNum 7)],
      CObj [(''deprecated'', HBool False), (''x'', HStr ''y'')],
      CObj [(''a'', HRef 3), (''n'', HNum 7)],
      CObj [(''x'', HStr ''y'')]]"


section \<open>Lemmas about the stripping pass\<close>

lemma set_key_order [simp]: "set (key_order kvs) = set kvs"
  by (auto simp: key_order_def)

lemma length_key_order [simp]: "length (key_order kvs) = length kvs"
proof -
  have "length (filter P kvs) + length (filter (\<lambda>e. \<not> P e) kvs) = length kvs" for P
    by (induction kvs) auto
  then show ?thesis by (simp add: key_order_def)
qed



lemma match_anchored_iff:
  "match_anchored s = Some n \<longleftrightarrow> s = schemas_prefix @ n \<and> n \<noteq> [] \<and> dot_run n = n"
proof
  assume "match_anchored s = Some n"
  then have a: "take (length schemas_prefix) s = schemas_prefix" "drop (length schemas_prefix) s = n"
    "n \<noteq> []" "dot_run n = n"
    by (auto simp: match_anchored_def Let_def split: if_splits)
  from a(1,2) have "s = schemas_prefix @ n" by (metis append_take_drop_id)
  with a(3,4) show "s = schemas_prefix @ n \<and> n \<noteq> [] \<and> dot_run n = n" by simp
next
  assume "s = schemas_prefix @ n \<and> n \<noteq> [] \<and> dot_run n = n"
  then show "match_anchored s = Some n"
    by (simp add: match_anchored_def Let_def)
qed

lemma schemas_prefix_nonempty: "schemas_prefix \<noteq> []"
  by (simp add: schemas_prefix_def)

lemma getSchemaNameFromRef_iff:
  "getSchemaNameFromRef (Some (JStr s)) = Some n \<longleftrightarrow>
     s = schemas_prefix @ n \<and> n \<noteq> [] \<and> dot_run n = n"
  using schemas_prefix_nonempty by (auto simp: match_anchored_iff)

lemma name_of_schema_ref:
  "S \<noteq> [] \<Longrightarrow> single_line S \<Longrightarrow> getSchemaNameFromRef (Some (schema_ref S)) = Some S"
  unfolding schema_ref_def by (simp only: getSchemaNameFromRef_iff single_line_def simp_thms)

lemma strip_entries_keys:
  "k \<notin> fst ` set kvs \<Longrightarrow> k \<notin> fst ` set (strip_entries kvs D)"
  by (induction kvs) (auto split: if_splits)

lemma strip_entries_distinct:
  "distinct (map fst kvs) \<Longrightarrow> distinct (map fst (strip_entries kvs D))"
  by (induction kvs) (auto dest: strip_entries_keys[where D=D] split: if_splits)

lemma map_of_strip_entries:
  "distinct (map fst kvs) \<Longrightarrow>
   map_of (strip_entries kvs D) k =
     (case map_of kvs k of
        None \<Rightarrow> None
      | Some v \<Rightarrow> if marked_deprecated v \<or> isRefToDeprecatedSchema v D then None
                  else Some (delete_deprecated (stripDeprecated v D)))"
proof (induction kvs)
  case Nil then show ?case by simp
next
  case (Cons a kvs)
  obtain k' v' where a: "a = (k', v')" by (cases a)
  from Cons.prems a have nk: "k' \<notin> fst ` set kvs" and d: "distinct (map fst kvs)" by auto
  have none: "map_of (strip_entries kvs D) k' = None"
    using strip_entries_keys[OF nk, of D] by (simp add: map_of_eq_None_iff)
  show ?case using Cons.IH[OF d] none a by (auto split: option.splits)
qed

lemma wf_entries_delete: "wf_entries kvs \<Longrightarrow> wf_entries (AList.delete k kvs)"
  by (induction kvs) (auto simp: AList.delete_eq)

lemma wf_delete_deprecated: "wf_json v \<Longrightarrow> wf_json (delete_deprecated v)"
  by (cases v) (auto simp: wf_entries_delete AList.distinct_delete)

lemma wf_strip:
  "wf_json t \<Longrightarrow> wf_json (stripDeprecated t D)"
  "wf_elems xs \<Longrightarrow> wf_elems (strip_elems xs D)"
  "wf_entries kvs \<Longrightarrow> wf_entries (strip_entries kvs D)"
  by (induction t D and xs D and kvs D rule: stripDeprecated_strip_elems_strip_entries.induct)
     (auto simp: strip_entries_distinct wf_delete_deprecated)

lemma wf_entries_map_of: "wf_entries kvs \<Longrightarrow> map_of kvs k = Some v \<Longrightarrow> wf_json v"
  by (induction kvs) (auto split: if_splits)

lemma wf_elems_nth: "wf_elems xs \<Longrightarrow> i < length xs \<Longrightarrow> wf_json (xs ! i)"
  by (induction xs arbitrary: i) (auto simp: nth_Cons split: nat.splits)

lemma length_strip_elems: "length (strip_elems xs D) = length xs"
  by (induction xs) auto

lemma nth_strip_elems: "i < length xs \<Longrightarrow> strip_elems xs D ! i = stripDeprecated (xs ! i) D"
  by (induction xs arbitrary: i) (auto simp: nth_Cons split: nat.splits)

lemma at_path_delete_deprecated_None:
  "at_path x q = None \<Longrightarrow> at_path (delete_deprecated x) q = None"
proof (cases q)
  case Nil then show "at_path x q = None \<Longrightarrow> ?thesis" by simp
next
  case (Cons s q')
  show "at_path x q = None \<Longrightarrow> ?thesis"
    using Cons by (cases x; cases s) (auto simp: AList.delete_conv split: option.splits)
qed

lemma at_path_strip_dropped:
  "wf_json t \<Longrightarrow> at_path t p = Some (JObj kvs) \<Longrightarrow> map_of kvs k = Some v \<Longrightarrow>
   marked_deprecated v \<or> isRefToDeprecatedSchema v D \<Longrightarrow>
   at_path (stripDeprecated t D) (p @ [Key k]) = None"
proof (induction p arbitrary: t)
  case Nil
  then show ?case by (auto simp: map_of_strip_entries)
next
  case (Cons s p)
  show ?case
  proof (cases s)
    case (Key k')
    with Cons.prems obtain kvs' t' where t: "t = JObj kvs'" and m: "map_of kvs' k' = Some t'"
      and a: "at_path t' p = Some (JObj kvs)"
      by (cases t) (auto split: option.splits)
    from Cons.prems(1) t m have wf': "wf_json t'" and d: "distinct (map fst kvs')"
      by (auto dest: wf_entries_map_of)
    have "at_path (stripDeprecated t' D) (p @ [Key k]) = None"
      using Cons.IH[OF wf' a Cons.prems(3) Cons.prems(4)] .
    then show ?thesis using t m Key d
      by (auto simp: map_of_strip_entries at_path_delete_deprecated_None)
  next
    case (Idx i)
    with Cons.prems obtain xs where t: "t = JArr xs" and i: "i < length xs"
      and a: "at_path (xs ! i) p = Some (JObj kvs)"
      by (cases t) (auto split: if_splits)
    from Cons.prems(1) t i have wf': "wf_json (xs ! i)" by (auto dest: wf_elems_nth)
    show ?thesis using Cons.IH[OF wf' a Cons.prems(3) Cons.prems(4)] t i Idx
      by (simp add: length_strip_elems nth_strip_elems)
  qed
qed


lemma strip_eq_JStr [simp]: "stripDeprecated v D = JStr s \<longleftrightarrow> v = JStr s"
  by (cases v) auto

lemma strip_eq_JBool [simp]: "stripDeprecated v D = JBool b \<longleftrightarrow> v = JBool b"
  by (cases v) auto

lemma delete_deprecated_eq_JStr [simp]: "delete_deprecated v = JStr s \<longleftrightarrow> v = JStr s"
  by (cases v) auto

lemma delete_deprecated_eq_JBool [simp]: "delete_deprecated v = JBool b \<longleftrightarrow> v = JBool b"
  by (cases v) auto

lemma is_mapping_strip [simp]: "is_mapping (stripDeprecated v D) = is_mapping v"
  by (cases v) auto

lemma is_mapping_delete_deprecated [simp]: "is_mapping (delete_deprecated v) = is_mapping v"
  by (cases v) auto

lemma is_object_strip [simp]: "is_object (stripDeprecated v D) = is_object v"
  by (cases v) auto

lemma is_object_delete_deprecated [simp]: "is_object (delete_deprecated v) = is_object v"
  by (cases v) auto

lemma truthy_strip [simp]: "truthy (stripDeprecated v D) = truthy v"
  by (cases v) auto

lemma truthy_delete_deprecated [simp]: "truthy (delete_deprecated v) = truthy v"
  by (cases v) auto

lemma get_prop_delete_deprecated:
  "get_prop (delete_deprecated x) k =
     (if is_mapping x \<and> k = ''deprecated'' then None else get_prop x k)"
  by (cases x) (auto simp: AList.delete_conv)

lemma get_prop_strip_mapping:
  "wf_json v \<Longrightarrow> is_mapping v \<Longrightarrow>
   get_prop (stripDeprecated v D) k =
     (case get_prop v k of
        None \<Rightarrow> None
      | Some w \<Rightarrow> if marked_deprecated w \<or> isRefToDeprecatedSchema w D then None
                  else Some (delete_deprecated (stripDeprecated w D)))"
  by (cases v) (auto simp: map_of_strip_entries)

lemma getSchemaNameFromRef_Some:
  "getSchemaNameFromRef r = Some n \<Longrightarrow> \<exists>s. r = Some (JStr s)"
  by (cases r rule: getSchemaNameFromRef.cases) auto

lemma ref_name_strip:
  assumes "wf_json v" "is_mapping v"
    and "getSchemaNameFromRef (get_prop (stripDeprecated v D) k) = Some n"
  shows "get_prop (stripDeprecated v D) k = get_prop v k"
proof -
  from getSchemaNameFromRef_Some[OF assms(3)] obtain s
    where s: "get_prop (stripDeprecated v D) k = Some (JStr s)" by blast
  then show ?thesis using assms(1,2)
    by (auto simp: get_prop_strip_mapping split: option.splits if_splits)
qed

lemma isRef_mono:
  "set D \<subseteq> set D0 \<Longrightarrow> isRefToDeprecatedSchema v D \<Longrightarrow> isRefToDeprecatedSchema v D0"
  unfolding isRefToDeprecatedSchema_def
  by (auto split: option.splits if_splits)

lemma digit_char_digit: "d < 10 \<Longrightarrow> is_digit (digit_char d)"
  unfolding digit_char_def is_digit_def by (rule nth_mem) simp

lemma all_digits_show_nat: "all_digits (show_nat n)"
proof (induction n rule: show_nat.induct)
  case (1 n)
  show ?case
  proof (cases "n < 10")
    case True
    then show ?thesis by (subst show_nat.simps) (simp add: all_digits_def digit_char_digit)
  next
    case False
    with 1 have "all_digits (show_nat (n div 10))" by simp
    moreover have "n mod 10 < 10" by simp
    ultimately show ?thesis using False
      by (subst show_nat.simps) (simp add: all_digits_def digit_char_digit)
  qed
qed

lemma index_entries_key: "(k, v) \<in> set (index_entries xs) \<Longrightarrow> all_digits k"
  by (auto simp: index_entries_def all_digits_show_nat dest!: set_zip_leftD)

lemma map_of_index_entries_None: "\<not> all_digits k \<Longrightarrow> map_of (index_entries xs) k = None"
  by (meson index_entries_key map_of_SomeD not_Some_eq)

lemma get_prop_JArr_name:
  "\<not> all_digits k \<Longrightarrow> k \<noteq> ''length'' \<Longrightarrow> get_prop (JArr xs) k = None"
  by (simp add: map_of_index_entries_None)

lemma get_prop_JStr_name:
  "\<not> all_digits k \<Longrightarrow> k \<noteq> ''length'' \<Longrightarrow> get_prop (JStr s) k = None"
  by (simp add: map_of_index_entries_None)

lemma get_prop_only_mapping:
  "\<not> all_digits k \<Longrightarrow> k \<noteq> ''length'' \<Longrightarrow> get_prop v k = Some w \<Longrightarrow> is_mapping v"
  by (cases v) (auto simp: map_of_index_entries_None)

lemma wf_get_prop: "wf_json v \<Longrightarrow> is_mapping v \<Longrightarrow> get_prop v k = Some w \<Longrightarrow> wf_json w"
  by (cases v) (auto dest: wf_entries_map_of)

lemma isRef_strip_back:
  assumes wf: "wf_json v" and r: "isRefToDeprecatedSchema (stripDeprecated v D0) D"
  shows "isRefToDeprecatedSchema v D"
proof -
  let ?v' = "stripDeprecated v D0"
  from r have m: "is_mapping v" and D: "D \<noteq> []"
    by (auto simp: isRefToDeprecatedSchema_def split: if_splits)
  from r m D consider
      (direct) n where "getSchemaNameFromRef (get_prop ?v' ''$ref'') = Some n" "n \<in> set D"
    | (items) it' n where "get_prop ?v' ''type'' = Some (JStr ''array'')"
        "get_prop ?v' ''items'' = Some it'" "is_object it'"
        "getSchemaNameFromRef (get_prop it' ''$ref'') = Some n" "n \<in> set D"
    by (auto simp: isRefToDeprecatedSchema_def split: if_splits option.splits)
  then show ?thesis
  proof cases
    case direct
    from ref_name_strip[OF wf m direct(1)] direct m D show ?thesis
      by (auto simp: isRefToDeprecatedSchema_def)
  next
    case items
    from items(1) wf m have ty: "get_prop v ''type'' = Some (JStr ''array'')"
      by (auto simp: get_prop_strip_mapping split: option.splits if_splits)
    from items(2) wf m obtain it where it: "get_prop v ''items'' = Some it"
      and it': "it' = delete_deprecated (stripDeprecated it D0)"
      by (auto simp: get_prop_strip_mapping split: option.splits if_splits)
    from wf_get_prop[OF wf m it] have wfit: "wf_json it" .
    from items(4) obtain s where s: "get_prop it' ''$ref'' = Some (JStr s)"
      by (auto dest: getSchemaNameFromRef_Some)
    then have s2: "get_prop (stripDeprecated it D0) ''$ref'' = Some (JStr s)"
      by (simp add: it' get_prop_delete_deprecated split: if_splits)
    then have mit: "is_mapping it"
      using get_prop_only_mapping[of "''$ref''" "stripDeprecated it D0" "JStr s"]
      by (simp add: all_digits_def is_digit_def)
    from s2 items(4) s
    have "getSchemaNameFromRef (get_prop (stripDeprecated it D0) ''$ref'') = Some n" by simp
    from ref_name_strip[OF wfit mit this] s2 have "get_prop it ''$ref'' = Some (JStr s)" by simp
    with items(4) s have "getSchemaNameFromRef (get_prop it ''$ref'') = Some n"
      "truthy_opt (get_prop it ''$ref'')"
      by (auto split: if_splits)
    with ty it mit items(5) m D show ?thesis
      by (cases it) (auto simp: isRefToDeprecatedSchema_def)
  qed
qed

lemma isRef_delete_deprecated [simp]:
  "isRefToDeprecatedSchema (delete_deprecated v) D = isRefToDeprecatedSchema v D"
  by (simp add: isRefToDeprecatedSchema_def get_prop_delete_deprecated)

lemma not_has_deprecated_key_delete [simp]: "\<not> has_deprecated_key (delete_deprecated v)"
  by (simp add: has_deprecated_key_def get_prop_delete_deprecated)

lemma all_entries_alist_delete:
  "all_entries_alist P kvs \<Longrightarrow> all_entries_alist P (AList.delete k kvs)"
  by (induction kvs) (auto simp: AList.delete_eq)

lemma all_entries_delete_deprecated:
  "all_entries P v \<Longrightarrow> all_entries P (delete_deprecated v)"
  by (cases v) (auto simp: all_entries_alist_delete)

lemma not_isRef_strip:
  "wf_json v \<Longrightarrow> set D \<subseteq> set D0 \<Longrightarrow> \<not> isRefToDeprecatedSchema v D0 \<Longrightarrow>
   \<not> isRefToDeprecatedSchema (stripDeprecated v D0) D"
  using isRef_strip_back isRef_mono by blast

lemma strip_clean:
  "wf_json t \<Longrightarrow> set D \<subseteq> set D0 \<Longrightarrow> all_entries (kept_clean D) (stripDeprecated t D0)"
  "wf_elems xs \<Longrightarrow> set D \<subseteq> set D0 \<Longrightarrow> all_entries_list (kept_clean D) (strip_elems xs D0)"
  "wf_entries kvs \<Longrightarrow> set D \<subseteq> set D0 \<Longrightarrow>
   all_entries_alist (kept_clean D) (strip_entries kvs D0)"
proof (induction t D0 and xs D0 and kvs D0 rule: stripDeprecated_strip_elems_strip_entries.induct)
  case (10 key val rest D0)
  then show ?case
    by (auto simp: kept_clean_def all_entries_delete_deprecated not_isRef_strip)
qed auto




text \<open>set_prop\<close>

lemma get_prop_set_prop_other:
  "k \<noteq> k' \<Longrightarrow> get_prop (set_prop v k x) k' = get_prop v k'"
  by (cases v) (auto simp: AList.update_conv)


lemma is_mapping_set_prop [simp]: "is_mapping (set_prop v k x) = is_mapping v"
  by (cases v) auto

lemma is_object_set_prop [simp]: "is_object (set_prop v k x) = is_object v"
  by (cases v) auto

lemma truthy_set_prop [simp]: "truthy (set_prop v k x) = truthy v"
  by (cases v) auto

lemma set_prop_idem [simp]: "set_prop (set_prop v k x) k x = set_prop v k x"
  by (cases v) (auto simp: AList.update_last)

lemma kept_clean_set_prop:
  "k \<notin> {''$ref'', ''type'', ''items'', ''deprecated''} \<Longrightarrow>
   kept_clean D key (set_prop v k x) = kept_clean D key v"
  by (simp add: kept_clean_def has_deprecated_key_def isRefToDeprecatedSchema_def
        get_prop_set_prop_other)

lemma all_entries_alist_update:
  "all_entries_alist P kvs \<Longrightarrow> P k x \<Longrightarrow> all_entries P x \<Longrightarrow>
   all_entries_alist P (AList.update k x kvs)"
  by (induction kvs) auto

lemma all_entries_set_prop:
  "all_entries P v \<Longrightarrow> P k x \<Longrightarrow> all_entries P x \<Longrightarrow> all_entries P (set_prop v k x)"
  by (cases v) (auto simp: all_entries_alist_update)

lemma all_entries_alist_map_of:
  "all_entries_alist P kvs \<Longrightarrow> map_of kvs k = Some v \<Longrightarrow> P k v \<and> all_entries P v"
  by (induction kvs) (auto split: if_splits)

lemma all_entries_get_prop:
  "all_entries P v \<Longrightarrow> is_mapping v \<Longrightarrow> get_prop v k = Some w \<Longrightarrow> P k w \<and> all_entries P w"
  by (cases v) (auto dest: all_entries_alist_map_of)

lemma kept_clean_nonmapping: "\<not> is_mapping v \<Longrightarrow> kept_clean D k v"
  by (simp add: kept_clean_def has_deprecated_key_def isRefToDeprecatedSchema_def)

lemma kept_clean_wide_metadata [simp]: "kept_clean D k wide_metadata"
  by (simp add: kept_clean_def has_deprecated_key_def isRefToDeprecatedSchema_def wide_metadata_def)

lemma all_entries_wide_metadata [simp]: "all_entries (kept_clean D) wide_metadata"
  by (simp add: wide_metadata_def kept_clean_nonmapping)

lemma kept_clean_fresh_xmint [simp]: "kept_clean D k (JObj [(''metadata'', wide_metadata)])"
  by (simp add: kept_clean_def has_deprecated_key_def isRefToDeprecatedSchema_def)

lemma all_entries_fresh_xmint [simp]:
  "all_entries (kept_clean D) (JObj [(''metadata'', wide_metadata)])"
  by simp

lemma stamp_xmint_clean:
  assumes "stamp_xmint xm = Inr xm'" "all_entries (kept_clean D) xm"
  shows "all_entries (kept_clean D) xm'"
proof (cases "is_mapping xm")
  case False
  then have "set_prop xm ''metadata'' z = xm" for z by (cases xm) auto
  with assms show ?thesis
    by (auto simp: stamp_xmint_def split: option.splits if_splits)
next
  case True
  show ?thesis
  proof (cases "get_prop xm ''metadata''")
    case None
    with assms True have "xm' = set_prop xm ''metadata'' wide_metadata"
      by (cases xm) (auto simp: stamp_xmint_def)
    then show ?thesis using all_entries_set_prop[OF assms(2)] by simp
  next
    case (Some md)
    from all_entries_get_prop[OF assms(2) True Some]
    have md: "kept_clean D ''metadata'' md" "all_entries (kept_clean D) md" by auto
    have "kept_clean D ''metadata'' (set_prop md ''mode'' (JStr ''wide''))"
      using md(1) by (simp add: kept_clean_set_prop)
    moreover have "all_entries (kept_clean D) (set_prop md ''mode'' (JStr ''wide''))"
      using md(2) by (auto intro!: all_entries_set_prop simp: kept_clean_nonmapping)
    ultimately show ?thesis using assms Some True
      by (auto simp: stamp_xmint_def split: if_splits intro!: all_entries_set_prop)
  qed
qed

lemma stamp_xmint_kept_clean:
  assumes "stamp_xmint xm = Inr xm'"
  shows "kept_clean D k xm' = kept_clean D k xm"
  using assms
  by (auto simp: stamp_xmint_def kept_clean_set_prop split: option.splits if_splits)

lemma stamp_op_clean:
  assumes "stamp_op op = Inr op'" "all_entries (kept_clean D) op"
  shows "all_entries (kept_clean D) op'"
proof (cases "is_mapping op")
  case False
  then have "set_prop op ''x-mint'' z = op" for z by (cases op) auto
  with assms show ?thesis
    by (auto simp: stamp_op_def split: option.splits if_splits sum.splits)
next
  case True
  show ?thesis
  proof (cases "get_prop op ''x-mint''")
    case None
    with assms True have "op' = set_prop op ''x-mint'' (JObj [(''metadata'', wide_metadata)])"
      by (cases op) (auto simp: stamp_op_def)
    then show ?thesis using all_entries_set_prop[OF assms(2)] by simp
  next
    case (Some xm)
    from all_entries_get_prop[OF assms(2) True Some]
    have xm: "kept_clean D ''x-mint'' xm" "all_entries (kept_clean D) xm" by auto
    show ?thesis using assms Some True xm
      by (auto simp: stamp_op_def stamp_xmint_kept_clean split: if_splits sum.splits
            intro!: all_entries_set_prop dest: stamp_xmint_clean)
  qed
qed

lemma stamp_op_kept_clean:
  assumes "stamp_op op = Inr op'"
  shows "kept_clean D k op' = kept_clean D k op"
  using assms
  by (auto simp: stamp_op_def kept_clean_set_prop split: option.splits if_splits sum.splits)

lemma stamp_entries_clean:
  "stamp_entries kvs = Inr kvs' \<Longrightarrow> all_entries_alist (kept_clean D) kvs \<Longrightarrow>
   all_entries_alist (kept_clean D) kvs'"
proof (induction kvs arbitrary: kvs')
  case Nil then show ?case by simp
next
  case (Cons a kvs)
  obtain k v where a: "a = (k, v)" by (cases a)
  show ?case using Cons.prems Cons.IH unfolding a
    by (auto split: if_splits sum.splits simp: stamp_op_kept_clean dest: stamp_op_clean)
qed

lemma stamp_entries_map_of_other:
  "stamp_entries kvs = Inr kvs' \<Longrightarrow> k \<notin> set OPERATION_METHODS \<Longrightarrow> map_of kvs' k = map_of kvs k"
proof (induction kvs arbitrary: kvs')
  case Nil then show ?case by simp
next
  case (Cons a kvs)
  obtain k0 v where a: "a = (k0, v)" by (cases a)
  show ?case using Cons.prems Cons.IH unfolding a
    by (auto split: if_splits sum.splits)
qed

lemma stamp_entries_keys:
  "stamp_entries kvs = Inr kvs' \<Longrightarrow> map fst kvs' = map fst kvs"
proof (induction kvs arbitrary: kvs')
  case Nil then show ?case by simp
next
  case (Cons a kvs)
  obtain k0 v where a: "a = (k0, v)" by (cases a)
  show ?case using Cons.prems Cons.IH unfolding a
    by (auto split: if_splits sum.splits)
qed

lemma stamp_path_item_cases:
  assumes "stamp_path_item v = Inr v'"
  obtains (mapping) kvs kvs' where "v = JObj kvs" "v' = JObj kvs'" "stamp_entries kvs = Inr kvs'"
    | (other) "\<not> is_mapping v" "v' = v"
  using assms by (cases v) (auto split: sum.splits)

lemma stamp_path_item_get_prop:
  assumes "stamp_path_item v = Inr v'" "k \<notin> set OPERATION_METHODS"
  shows "get_prop v' k = get_prop v k"
  using assms(1)
  by (cases rule: stamp_path_item_cases) (auto simp: stamp_entries_map_of_other assms(2))

lemma stamp_path_item_shape [simp]:
  assumes "stamp_path_item v = Inr v'"
  shows "is_mapping v' = is_mapping v" "is_object v' = is_object v" "truthy v' = truthy v"
  using assms by (cases rule: stamp_path_item_cases; auto)+

lemma stamp_path_item_kept_clean:
  assumes "stamp_path_item v = Inr v'"
  shows "kept_clean D k v' = kept_clean D k v"
  using assms
  by (simp add: kept_clean_def has_deprecated_key_def isRefToDeprecatedSchema_def
        stamp_path_item_get_prop[OF assms] OPERATION_METHODS_def)

lemma stamp_path_item_clean:
  assumes "stamp_path_item v = Inr v'" "all_entries (kept_clean D) v"
  shows "all_entries (kept_clean D) v'"
  using assms(1)
  by (cases rule: stamp_path_item_cases) (use assms(2) in \<open>auto dest: stamp_entries_clean\<close>)

lemma stamp_path_item_eq_JStr:
  "stamp_path_item v = Inr (JStr s) \<Longrightarrow> v = JStr s"
  by (cases v) (auto split: sum.splits)

lemma stamp_path_item_eq_JBool:
  "stamp_path_item v = Inr (JBool s) \<Longrightarrow> v = JBool s"
  by (cases v) (auto split: sum.splits)

lemma stamp_paths_map_of:
  "stamp_paths kvs = Inr kvs' \<Longrightarrow>
   (case map_of kvs k of
      None \<Rightarrow> map_of kvs' k = None
    | Some v \<Rightarrow> \<exists>v'. stamp_path_item v = Inr v' \<and> map_of kvs' k = Some v')"
proof (induction kvs arbitrary: kvs')
  case Nil then show ?case by simp
next
  case (Cons a kvs)
  obtain k0 v where a: "a = (k0, v)" by (cases a)
  show ?case using Cons.prems Cons.IH unfolding a
    by (auto split: if_splits sum.splits option.splits)
qed

lemma stamp_paths_map_of_Some:
  "stamp_paths kvs = Inr kvs' \<Longrightarrow> map_of kvs' k = Some v' \<Longrightarrow>
   \<exists>v. map_of kvs k = Some v \<and> stamp_path_item v = Inr v'"
  using stamp_paths_map_of[of kvs kvs' k] by (auto split: option.splits)

lemma stamp_paths_map_of_None:
  "stamp_paths kvs = Inr kvs' \<Longrightarrow> (map_of kvs' k = None) = (map_of kvs k = None)"
  using stamp_paths_map_of[of kvs kvs' k] by (auto split: option.splits)

lemma stamp_paths_clean:
  "stamp_paths kvs = Inr kvs' \<Longrightarrow> all_entries_alist (kept_clean D) kvs \<Longrightarrow>
   all_entries_alist (kept_clean D) kvs'"
proof (induction kvs arbitrary: kvs')
  case Nil then show ?case by simp
next
  case (Cons a kvs)
  obtain k v where a: "a = (k, v)" by (cases a)
  show ?case using Cons.prems Cons.IH unfolding a
    by (auto split: if_splits sum.splits simp: stamp_path_item_kept_clean dest: stamp_path_item_clean)
qed

lemma stamp_path_list_clean:
  "stamp_path_list xs = Inr xs' \<Longrightarrow> all_entries_list (kept_clean D) xs \<Longrightarrow>
   all_entries_list (kept_clean D) xs'"
proof (induction xs arbitrary: xs')
  case Nil then show ?case by simp
next
  case (Cons v xs)
  show ?case using Cons.prems Cons.IH
    by (auto split: if_splits sum.splits dest: stamp_path_item_clean)
qed

lemma getSchemaNameFromRef_truthy: "getSchemaNameFromRef r = Some n \<Longrightarrow> truthy_opt r"
  by (cases r rule: getSchemaNameFromRef.cases) (auto split: if_splits)

lemma is_object_truthy: "is_object v \<Longrightarrow> truthy v"
  by (cases v) auto

lemma isRef_stamp_paths:
  assumes st: "stamp_paths kvs = Inr kvs'" and r: "isRefToDeprecatedSchema (JObj kvs') D"
  shows "isRefToDeprecatedSchema (JObj kvs) D"
proof -
  from r have D: "D \<noteq> []" by (auto simp: isRefToDeprecatedSchema_def split: if_splits)
  from r D consider
      (direct) n where "getSchemaNameFromRef (map_of kvs' ''$ref'') = Some n" "n \<in> set D"
    | (items) it' n where "map_of kvs' ''type'' = Some (JStr ''array'')"
        "map_of kvs' ''items'' = Some it'" "is_object it'"
        "getSchemaNameFromRef (get_prop it' ''$ref'') = Some n" "n \<in> set D"
    by (auto simp: isRefToDeprecatedSchema_def split: if_splits option.splits)
  then show ?thesis
  proof cases
    case direct
    then obtain s where s: "map_of kvs' ''$ref'' = Some (JStr s)"
      by (auto dest: getSchemaNameFromRef_Some)
    from stamp_paths_map_of_Some[OF st s] have "map_of kvs ''$ref'' = Some (JStr s)"
      by (auto dest: stamp_path_item_eq_JStr)
    with direct s D show ?thesis by (auto simp: isRefToDeprecatedSchema_def)
  next
    case items
    from stamp_paths_map_of_Some[OF st items(1)] have ty: "map_of kvs ''type'' = Some (JStr ''array'')"
      by (auto dest: stamp_path_item_eq_JStr)
    from stamp_paths_map_of_Some[OF st items(2)] obtain it
      where it: "map_of kvs ''items'' = Some it" "stamp_path_item it = Inr it'" by auto
    have g: "get_prop it' ''$ref'' = get_prop it ''$ref''"
      by (rule stamp_path_item_get_prop[OF it(2)]) (simp add: OPERATION_METHODS_def)
    from items(4) g have "truthy_opt (get_prop it ''$ref'')"
      by (auto dest: getSchemaNameFromRef_truthy)
    with items ty it g D show ?thesis
      by (auto simp: isRefToDeprecatedSchema_def is_object_truthy)
  qed
qed

lemma kept_clean_stamp_paths:
  assumes st: "stamp_paths kvs = Inr kvs'" and c: "kept_clean D k (JObj kvs)"
  shows "kept_clean D k (JObj kvs')"
  using c isRef_stamp_paths[OF st, of D] stamp_paths_map_of_None[OF st, of "''deprecated''"]
  by (auto simp: kept_clean_def has_deprecated_key_def)

lemma ensureWideMode_clean:
  assumes w: "ensureWideMode s = Inr y" and c: "all_entries (kept_clean D) s"
  shows "all_entries (kept_clean D) y"
proof (cases "is_mapping s")
  case False
  then have "set_prop s ''paths'' z = s" for z by (cases s) auto
  with w c show ?thesis
    by (auto simp: ensureWideMode_def split: option.splits if_splits sum.splits json.splits)
next
  case True
  show ?thesis
  proof (cases "get_prop s ''paths''")
    case None
    with w c show ?thesis by (auto simp: ensureWideMode_def split: if_splits)
  next
    case (Some ps)
    from all_entries_get_prop[OF c True Some]
    have ps: "kept_clean D ''paths'' ps" "all_entries (kept_clean D) ps" by auto
    show ?thesis
    proof (cases ps)
      case (JObj pkvs)
      with w Some obtain pkvs' where st: "stamp_paths pkvs = Inr pkvs'"
        and y: "y = set_prop s ''paths'' (JObj pkvs')"
        by (auto simp: ensureWideMode_def split: if_splits sum.splits)
      from ps JObj have "kept_clean D ''paths'' (JObj pkvs')" "all_entries (kept_clean D) (JObj pkvs')"
        using kept_clean_stamp_paths[OF st] stamp_paths_clean[OF st] by auto
      then show ?thesis unfolding y by (intro all_entries_set_prop c)
    next
      case (JArr xs)
      with w Some obtain xs' where st: "stamp_path_list xs = Inr xs'"
        and y: "y = set_prop s ''paths'' (JArr xs')"
        by (auto simp: ensureWideMode_def split: if_splits sum.splits)
      from ps JArr have "all_entries (kept_clean D) (JArr xs')"
        using stamp_path_list_clean[OF st] by auto
      then show ?thesis unfolding y
        by (intro all_entries_set_prop c) (simp_all add: kept_clean_nonmapping)
    qed (use w Some c in \<open>auto simp: ensureWideMode_def split: if_splits\<close>)
  qed
qed

lemma truthy_wide_metadata [simp]: "truthy wide_metadata" "is_mapping wide_metadata"
  by (simp_all add: wide_metadata_def)

lemma set_mode_wide_metadata [simp]: "set_prop wide_metadata ''mode'' (JStr ''wide'') = wide_metadata"
  by (simp add: wide_metadata_def)


lemma get_prop_name_nonmapping:
  "\<not> is_mapping v \<Longrightarrow> \<not> all_digits k \<Longrightarrow> k \<noteq> ''length'' \<Longrightarrow> get_prop v k = None"
  by (cases v) (auto simp: map_of_index_entries_None)











lemma get_prop_deprecated_nonmapping:
  "\<not> is_mapping v \<Longrightarrow> get_prop v ''deprecated'' = None"
  by (intro get_prop_name_nonmapping) (simp_all add: all_digits_def is_digit_def)

lemma deprecated_entry_iff:
  "deprecated_entry (k, v) = (is_mapping v \<and> get_prop v ''deprecated'' = Some (JBool True))"
  by (cases v) (auto simp: deprecated_entry_def get_prop_deprecated_nonmapping
      simp del: get_prop.simps)

lemma deprecated_entry_delete [simp]: "\<not> deprecated_entry (k, delete_deprecated v)"
  by (simp add: deprecated_entry_iff get_prop_delete_deprecated)





lemma wf_elems_set: "wf_elems xs \<Longrightarrow> v \<in> set xs \<Longrightarrow> wf_json v"
  by (induction xs) auto








lemma all_entries_mono:
  "all_entries P t \<Longrightarrow> (\<And>k v. P k v \<Longrightarrow> Q k v) \<Longrightarrow> all_entries Q t"
  "all_entries_list P xs \<Longrightarrow> (\<And>k v. P k v \<Longrightarrow> Q k v) \<Longrightarrow> all_entries_list Q xs"
  "all_entries_alist P kvs \<Longrightarrow> (\<And>k v. P k v \<Longrightarrow> Q k v) \<Longrightarrow> all_entries_alist Q kvs"
  by (induction P t and P xs and P kvs rule: all_entries_all_entries_list_all_entries_alist.induct) auto

lemma refers_to_isRef:
  assumes "refers_to v S" "S \<in> set D" "S \<noteq> []" "single_line S"
  shows "isRefToDeprecatedSchema v D"
proof -
  from assms(2) have D: "D \<noteq> []" by auto
  from assms(1) have m: "is_mapping v" by (simp add: refers_to_def)
  note n = name_of_schema_ref[OF assms(3,4)]
  from assms(1) consider (direct) "get_prop v ''$ref'' = Some (schema_ref S)"
    | (items) "get_prop v ''type'' = Some (JStr ''array'')"
        "get_opt (get_prop v ''items'') ''$ref'' = Some (schema_ref S)"
    by (auto simp: refers_to_def)
  then show ?thesis
  proof cases
    case direct
    with m D assms(2) n show ?thesis by (simp add: isRefToDeprecatedSchema_def)
  next
    case items
    then obtain it where it: "get_prop v ''items'' = Some it"
      by (cases "get_prop v ''items''") auto
    with items(2) have r: "get_prop it ''$ref'' = Some (schema_ref S)" by simp
    then have "is_mapping it"
      by (rule_tac get_prop_only_mapping[of "''$ref''"]) (simp_all add: all_digits_def is_digit_def)
    then have "is_object it" "truthy it" by (cases it; simp)+
    moreover from n have "truthy_opt (Some (schema_ref S))" by (rule getSchemaNameFromRef_truthy)
    ultimately show ?thesis using items(1) it r n m D assms(2)
      by (simp add: isRefToDeprecatedSchema_def)
  qed
qed

lemma declared_deprecated_in_names:
  assumes "get_prop t ''components'' = Some comps"
    and "get_prop comps ''schemas'' = Some (JObj schemas)"
    and "map_of schemas S = Some schema"
    and "get_prop schema ''deprecated'' = Some (JBool True)"
  shows "S \<in> set (buildDeprecatedSchemaNames t)"
proof -
  from assms(4) have "is_mapping schema"
    by (rule_tac get_prop_only_mapping[of "''deprecated''"]) (simp_all add: all_digits_def is_digit_def)
  with assms(4) have "deprecated_entry (S, schema)" by (simp add: deprecated_entry_iff)
  moreover from assms(3) have "(S, schema) \<in> set schemas" by (rule map_of_SomeD)
  ultimately have "S \<in> fst ` {x \<in> set schemas. deprecated_entry x}" by force
  with assms(1,2) show ?thesis by (simp add: buildDeprecatedSchemaNames_def)
qed

lemma get_prop_xmint_name [simp]:
  "\<not> all_digits ''x-mint''" "\<not> all_digits ''metadata''" "\<not> all_digits ''mode''"
  "\<not> all_digits ''paths''"
  by (simp_all add: all_digits_def is_digit_def)





section \<open>Lemmas about the renderer\<close>

lemma match_unanchored_at_start:
  assumes "take (length schemas_prefix) s = schemas_prefix"
    and "dot_run (drop (length schemas_prefix) s) = n"
    and "n \<noteq> []"
  shows "match_unanchored s = Some n"
proof (cases s)
  case Nil
  with assms(1) schemas_prefix_nonempty show ?thesis by simp
next
  case (Cons c cs)
  with assms show ?thesis by (simp add: Let_def)
qed

lemma getRefName_agrees:
  assumes "getSchemaNameFromRef (Some (JStr s)) = Some n"
  shows "getRefName (Some (JStr s)) = Some n"
proof -
  from getSchemaNameFromRef_iff[THEN iffD1, OF assms]
  have s: "s = schemas_prefix @ n" "n \<noteq> []" "dot_run n = n"
    by simp_all
  have "match_unanchored s = Some n"
    by (rule match_unanchored_at_start) (use s in simp_all)
  with s(1,2) schemas_prefix_nonempty show ?thesis by simp
qed




















section \<open>Lemmas about the store\<close>

lemma take_prefix_length: "take (length h) h' = h \<Longrightarrow> length h \<le> length h'"
  by (metis length_take min.cobounded1)

lemma take_prefix_nth: "take (length h) h' = h \<Longrightarrow> b < length h \<Longrightarrow> h' ! b = h ! b"
  by (metis nth_take)

lemma same_except_refl: "same_except r h h"
  by (simp add: same_except_def)

lemma same_except_trans: "same_except r h h1 \<Longrightarrow> same_except r h1 h2 \<Longrightarrow> same_except r h h2"
  by (auto simp: same_except_def)

lemma same_except_prefix: "take (length h) h' = h \<Longrightarrow> same_except r h h'"
  by (simp add: same_except_def take_prefix_length take_prefix_nth)

lemma same_except_update: "same_except r h (h[r := c])"
  by (simp add: same_except_def)

lemma same_except_update_above: "length h \<le> b \<Longrightarrow> same_except r h (h[b := c])"
  by (simp add: same_except_def)

lemma same_except_h_set_key: "same_except r h (h_set_key h r k v)"
  by (auto simp: h_set_key_def same_except_update same_except_refl split: option.splits cell.splits)

lemma same_except_h_push: "same_except r h (h_push h r v)"
  by (auto simp: h_push_def same_except_update same_except_refl split: option.splits cell.splits)

lemma h_delete_deprecated_above:
  "(\<forall>b. v = HRef b \<longrightarrow> L \<le> b) \<Longrightarrow> b < L \<Longrightarrow> b < length h \<Longrightarrow>
   h_delete_deprecated h v ! b = h ! b"
  by (cases v) (auto split: option.splits cell.splits)

lemma length_h_set_key [simp]: "length (h_set_key h r k v) = length h"
  by (auto simp: h_set_key_def split: option.splits cell.splits)

lemma length_h_push [simp]: "length (h_push h r v) = length h"
  by (auto simp: h_push_def split: option.splits cell.splits)

lemma length_h_delete [simp]: "length (h_delete_deprecated h v) = length h"
  by (cases v) (auto split: option.splits cell.splits)

lemma same_except_turn:
  assumes p: "take (length h) h1 = h" and fr: "\<forall>b. v = HRef b \<longrightarrow> length h \<le> b"
  shows "same_except r h (h_delete_deprecated (h_set_key h1 r k v) v)"
proof -
  from p have len: "length h \<le> length h1" by (rule take_prefix_length)
  have "h_delete_deprecated (h_set_key h1 r k v) v ! b = h ! b" if "b < length h" "b \<noteq> r" for b
  proof -
    have "h_delete_deprecated (h_set_key h1 r k v) v ! b = h_set_key h1 r k v ! b"
      by (rule h_delete_deprecated_above[OF fr that(1)]) (use that len in simp)
    also have "\<dots> = h1 ! b" using that same_except_h_set_key[of r h1 k v] len
      by (simp add: same_except_def)
    also have "\<dots> = h ! b" using p that(1) by (rule take_prefix_nth)
    finally show ?thesis .
  qed
  with len show ?thesis by (simp add: same_except_def)
qed

lemma strip_keys_frame:
  assumes rec: "frame_call recurse"
  shows "strip_keys_h recurse a r keys D h = Some h' \<Longrightarrow> same_except r h h'"
proof (induction keys arbitrary: h)
  case Nil
  then show ?case by (simp add: same_except_refl)
next
  case (Cons key keys)
  let ?val = "h_get h (HRef a) key"
  show ?case
  proof (cases "h_marked_deprecated h ?val \<or> h_isRefToDeprecatedSchema h ?val D")
    case True
    with Cons.prems have "strip_keys_h recurse a r keys D h = Some h'"
      by (auto simp: Let_def simp del: h_get.simps split: if_splits)
    from Cons.IH[OF this] show ?thesis .
  next
    case False
    with Cons.prems(1) obtain v h1 where
      r1: "recurse ?val h = Some (v, h1)"
      and rest: "strip_keys_h recurse a r keys D (h_delete_deprecated (h_set_key h1 r key v) v) = Some h'"
      by (auto simp: Let_def simp del: h_get.simps split: option.splits)
    from rec r1 have p: "take (length h) h1 = h" and fr: "\<forall>b. v = HRef b \<longrightarrow> length h \<le> b"
      by (auto simp: frame_call_def)
    from same_except_turn[OF p fr] Cons.IH[OF rest] show ?thesis
      by (rule same_except_trans)
  qed
qed

lemma strip_indices_frame:
  assumes rec: "frame_call recurse"
  shows "strip_indices_h recurse a r idx h = Some h' \<Longrightarrow> same_except r h h'"
proof (induction idx arbitrary: h)
  case Nil
  then show ?case by (simp add: same_except_refl)
next
  case (Cons i idx)
  from Cons.prems(1) obtain v h1 where
    r1: "recurse (h_elem h a i) h = Some (v, h1)"
    and rest: "strip_indices_h recurse a r idx (h_push h1 r v) = Some h'"
    by (auto split: option.splits)
  from rec r1 have p: "take (length h) h1 = h" by (auto simp: frame_call_def)
  have "same_except r h (h_push h1 r v)"
    using same_except_prefix[OF p] same_except_h_push by (rule same_except_trans)
  from this Cons.IH[OF rest] show ?case by (rule same_except_trans)
qed

lemma same_except_alloc:
  assumes "same_except (length h) (h @ [c]) h'"
  shows "take (length h) h' = h \<and> length h < length h'"
proof -
  from assms have len: "Suc (length h) \<le> length h'" by (simp add: same_except_def)
  have "take (length h) h' ! b = h ! b" if "b < length h" for b
    using assms that by (simp add: same_except_def nth_append)
  with len have "take (length h) h' = h" by (intro nth_equalityI) auto
  with len show ?thesis by simp
qed

lemma stripDeprecated_h_frame: "frame_call (\<lambda>v h. stripDeprecated_h fuel v D h)"
proof (induction fuel)
  case 0
  show ?case by (simp add: frame_call_def)
next
  case (Suc fuel)
  show ?case
    unfolding frame_call_def
  proof (intro allI impI)
    fix v h v' h'
    assume s: "stripDeprecated_h (Suc fuel) v D h = Some (v', h')"
    show "take (length h) h' = h \<and> (\<forall>b. v' = HRef b \<longrightarrow> length h \<le> b \<and> b < length h')"
    proof (cases v)
      case (HRef a)
      show ?thesis
      proof (cases "cell_at h a")
        case None
        with s HRef show ?thesis by simp
      next
        case (Some c)
        show ?thesis
        proof (cases c)
          case (CArr xs)
          with s HRef Some have l: "strip_indices_h (\<lambda>v h'. stripDeprecated_h fuel v D h') a (length h)
                       [0 ..< length xs] (h @ [CArr []]) = Some h'" and v': "v' = HRef (length h)"
            by (auto split: option.splits)
          from same_except_alloc[OF strip_indices_frame[OF Suc l]] v' show ?thesis by simp
        next
          case (CObj kvs)
          with s HRef Some have l: "strip_keys_h (\<lambda>v h'. stripDeprecated_h fuel v D h') a (length h)
                       (map fst kvs) D (h @ [CObj []]) = Some h'" and v': "v' = HRef (length h)"
            by (auto split: option.splits)
          from same_except_alloc[OF strip_keys_frame[OF Suc l]] v' show ?thesis by simp
        qed
      qed
    qed (use s in auto)
  qed
qed

lemma cell_at_prefix: "take (length h) h' = h \<Longrightarrow> cell_at h a = Some c \<Longrightarrow> cell_at h' a = Some c"
  by (auto simp: cell_at_def split: if_splits dest: take_prefix_length take_prefix_nth)

lemma repr_prefix:
  "repr h v t \<Longrightarrow> take (length h) h' = h \<Longrightarrow> repr h' v t"
  "repr_list h xs ts \<Longrightarrow> take (length h) h' = h \<Longrightarrow> repr_list h' xs ts"
  "repr_entries h kvs kts \<Longrightarrow> take (length h) h' = h \<Longrightarrow> repr_entries h' kvs kts"
proof (induction h v t and h xs ts and h kvs kts rule: repr_repr_list_repr_entries.induct)
  case (5 h v ts)
  then show ?case
    by (auto split: hval.splits option.splits cell.splits dest: cell_at_prefix)
next
  case (6 h v kts)
  then show ?case
    by (auto split: hval.splits option.splits cell.splits dest: cell_at_prefix)
qed auto

lemma cell_at_same_except:
  "same_except r h h' \<Longrightarrow> a \<noteq> r \<Longrightarrow> cell_at h a = Some c \<Longrightarrow> cell_at h' a = Some c"
  by (auto simp: cell_at_def same_except_def split: if_splits)

lemma frepr_same_except:
  "frepr L h v t \<Longrightarrow> r < L \<Longrightarrow> same_except r h h' \<Longrightarrow> frepr L h' v t"
  "frepr_list L h xs ts \<Longrightarrow> r < L \<Longrightarrow> same_except r h h' \<Longrightarrow> frepr_list L h' xs ts"
  "frepr_entries L h kvs kts \<Longrightarrow> r < L \<Longrightarrow> same_except r h h' \<Longrightarrow> frepr_entries L h' kvs kts"
proof (induction L h v t and L h xs ts and L h kvs kts rule: frepr_frepr_list_frepr_entries.induct)
  case (5 L h v ts)
  from "5.prems"(1) obtain a xs where v: "v = HRef a" "L \<le> a" "cell_at h a = Some (CArr xs)"
    "frepr_list (Suc a) h xs ts"
    by (auto split: hval.splits option.splits cell.splits)
  from v(2) "5.prems"(2) have ar: "a \<noteq> r" "r < Suc a" by auto
  from cell_at_same_except[OF "5.prems"(3) ar(1) v(3)] have c: "cell_at h' a = Some (CArr xs)" .
  from "5.IH"[OF v(1) v(3) refl v(4) ar(2) "5.prems"(3)] v(1,2) c show ?case by simp
next
  case (6 L h v kts)
  from "6.prems"(1) obtain a kvs where v: "v = HRef a" "L \<le> a" "cell_at h a = Some (CObj kvs)"
    "frepr_entries (Suc a) h kvs kts"
    by (auto split: hval.splits option.splits cell.splits)
  from v(2) "6.prems"(2) have ar: "a \<noteq> r" "r < Suc a" by auto
  from cell_at_same_except[OF "6.prems"(3) ar(1) v(3)] have c: "cell_at h' a = Some (CObj kvs)" .
  from "6.IH"[OF v(1) v(3) refl v(4) ar(2) "6.prems"(3)] v(1,2) c show ?case by simp
qed auto

lemma frepr_mono:
  "frepr L h v t \<Longrightarrow> L' \<le> L \<Longrightarrow> frepr L' h v t"
  "frepr_list L h xs ts \<Longrightarrow> L' \<le> L \<Longrightarrow> frepr_list L' h xs ts"
  "frepr_entries L h kvs kts \<Longrightarrow> L' \<le> L \<Longrightarrow> frepr_entries L' h kvs kts"
proof (induction L h v t and L h xs ts and L h kvs kts arbitrary: L' and L' and L'
    rule: frepr_frepr_list_frepr_entries.induct)
  case (5 L h v ts)
  then show ?case by (auto split: hval.splits option.splits cell.splits)
next
  case (6 L h v kts)
  then show ?case by (auto split: hval.splits option.splits cell.splits)
qed auto

lemma frepr_repr:
  "frepr L h v t \<Longrightarrow> repr h v t"
  "frepr_list L h xs ts \<Longrightarrow> repr_list h xs ts"
  "frepr_entries L h kvs kts \<Longrightarrow> repr_entries h kvs kts"
proof (induction L h v t and L h xs ts and L h kvs kts rule: frepr_frepr_list_frepr_entries.induct)
  case (5 L h v ts)
  then show ?case by (auto split: hval.splits option.splits cell.splits)
next
  case (6 L h v kts)
  then show ?case by (auto split: hval.splits option.splits cell.splits)
qed auto

lemma repr_HUndef [simp]: "\<not> repr h HUndef t"
  by (cases t) auto

lemma repr_scalar:
  "repr h HNull t \<longleftrightarrow> t = JNull"
  "repr h (HBool b) t \<longleftrightarrow> t = JBool b"
  "repr h (HNum n) t \<longleftrightarrow> t = JNum n"
  "repr h (HStr s) t \<longleftrightarrow> t = JStr s"
  by (cases t; auto)+

lemma repr_truthy: "repr h v t \<Longrightarrow> h_truthy v = truthy t"
  by (cases t) (auto split: hval.splits)

lemma repr_is_object: "repr h v t \<Longrightarrow> h_is_object v = is_object t"
  by (cases t) (auto split: hval.splits)

lemma repr_is_mapping: "repr h v t \<Longrightarrow> h_is_mapping h v = is_mapping t"
  by (cases t) (auto split: hval.splits option.splits cell.splits)

lemma repr_entries_keys: "repr_entries h kvs kts \<Longrightarrow> map fst kvs = map fst kts"
proof (induction kvs arbitrary: kts)
  case Nil
  then show ?case by (cases kts) auto
next
  case (Cons kv kvs)
  then show ?case by (cases kts; cases kv) auto
qed

lemma repr_entries_map_of:
  "repr_entries h kvs kts \<Longrightarrow>
   (case map_of kvs k of
      None \<Rightarrow> map_of kts k = None
    | Some x \<Rightarrow> \<exists>t. map_of kts k = Some t \<and> repr h x t)"
proof (induction kvs arbitrary: kts)
  case Nil
  then show ?case by (cases kts) auto
next
  case (Cons kv kvs)
  obtain k0 x0 where kv: "kv = (k0, x0)" by (cases kv)
  from Cons.prems kv obtain t0 kts' where kts: "kts = (k0, t0) # kts'"
    and r: "repr h x0 t0" "repr_entries h kvs kts'"
    by (cases kts) auto
  from Cons.IH[OF r(2)] r(1) show ?case unfolding kv kts
    by (auto split: option.splits)
qed

lemma same_read_name:
  assumes "repr h v t" "\<not> all_digits k" "k \<noteq> ''length''"
  shows "same_read h (h_get h v k) (get_prop t k)"
proof (cases t)
  case (JObj kts)
  with assms(1) obtain a kvs where v: "v = HRef a" "cell_at h a = Some (CObj kvs)"
    "repr_entries h kvs kts"
    by (auto split: hval.splits option.splits cell.splits)
  from repr_entries_map_of[OF v(3), of k] v(1,2) JObj show ?thesis
    by (auto simp: same_read_def split: option.splits)
next
  case (JArr ts)
  with assms show ?thesis
    by (auto simp: same_read_def map_of_index_entries_None split: hval.splits option.splits cell.splits)
next
  case (JStr s)
  with assms show ?thesis
    by (auto simp: same_read_def map_of_index_entries_None)
qed (use assms in \<open>auto simp: same_read_def\<close>)

lemma same_read_schema_name:
  "same_read h y u \<Longrightarrow> h_schema_name y = getSchemaNameFromRef u"
proof (cases u)
  case None
  then show "same_read h y u \<Longrightarrow> ?thesis" by (simp add: same_read_def)
next
  case (Some t)
  then show "same_read h y u \<Longrightarrow> ?thesis"
    by (cases t) (auto simp: same_read_def split: hval.splits)
qed

lemma same_read_truthy: "same_read h y u \<Longrightarrow> h_truthy y = truthy_opt u"
  by (cases u) (auto simp: same_read_def repr_truthy)

lemma same_read_eq_JStr: "same_read h y u \<Longrightarrow> (y = HStr s) = (u = Some (JStr s))"
  by (cases u) (auto simp: same_read_def repr_scalar dest: repr_scalar(4)[THEN iffD1])

lemma same_read_eq_JBool: "same_read h y u \<Longrightarrow> (y = HBool b) = (u = Some (JBool b))"
  by (cases u) (auto simp: same_read_def repr_scalar)

lemma non_digit_keys [simp]:
  "\<not> all_digits ''deprecated''" "\<not> all_digits ''$ref''" "\<not> all_digits ''type''"
  "\<not> all_digits ''items''"
  by (simp_all add: all_digits_def is_digit_def)

lemma repr_marked:
  assumes "repr h v t"
  shows "h_marked_deprecated h v = marked_deprecated t"
  using same_read_eq_JBool[OF same_read_name[OF assms, of "''deprecated''"], of True]
    repr_is_mapping[OF assms]
  by (simp add: h_marked_deprecated_def marked_deprecated_def)

lemma repr_isRef:
  assumes r: "repr h v t"
  shows "h_isRefToDeprecatedSchema h v D = isRefToDeprecatedSchema t D"
proof -
  note m = repr_is_mapping[OF r]
  have ref: "same_read h (h_get h v ''$ref'') (get_prop t ''$ref'')"
    by (rule same_read_name[OF r]) simp_all
  have ty: "same_read h (h_get h v ''type'') (get_prop t ''type'')"
    by (rule same_read_name[OF r]) simp_all
  have it: "same_read h (h_get h v ''items'') (get_prop t ''items'')"
    by (rule same_read_name[OF r]) simp_all
  have direct: "h_schema_name (h_get h v ''$ref'') = getSchemaNameFromRef (get_prop t ''$ref'')"
    by (rule same_read_schema_name[OF ref])
  have tyeq: "(h_get h v ''type'' = HStr ''array'') = (get_prop t ''type'' = Some (JStr ''array''))"
    by (rule same_read_eq_JStr[OF ty])
  have items:
    "(h_truthy (h_get h v ''items'') \<and> h_is_object (h_get h v ''items'') \<and>
      h_truthy (h_get h (h_get h v ''items'') ''$ref'') \<and>
      (case h_schema_name (h_get h (h_get h v ''items'') ''$ref'') of
         Some itemsRef \<Rightarrow> itemsRef \<in> set D | None \<Rightarrow> False))
     = (truthy_opt (get_prop t ''items'') \<and>
        (case get_prop t ''items'' of
           Some items \<Rightarrow> is_object items \<and> truthy_opt (get_prop items ''$ref'') \<and>
             (case getSchemaNameFromRef (get_prop items ''$ref'') of
                Some itemsRef \<Rightarrow> itemsRef \<in> set D | None \<Rightarrow> False)
         | None \<Rightarrow> False))"
  proof (cases "get_prop t ''items''")
    case None
    with it have "h_get h v ''items'' = HUndef" by (simp add: same_read_def)
    with None show ?thesis by simp
  next
    case (Some u)
    with it have ru: "repr h (h_get h v ''items'') u" by (simp add: same_read_def)
    have sr: "same_read h (h_get h (h_get h v ''items'') ''$ref'') (get_prop u ''$ref'')"
      by (rule same_read_name[OF ru]) simp_all
    show ?thesis
      unfolding Some
      by (simp add: repr_truthy[OF ru] repr_is_object[OF ru] same_read_truthy[OF sr]
            same_read_schema_name[OF sr] del: h_get.simps)
  qed
  show ?thesis
    unfolding h_isRefToDeprecatedSchema_def isRefToDeprecatedSchema_def m direct tyeq
    using items by (auto simp del: h_get.simps)
qed

lemma stripDeprecated_h_scalar:
  "\<forall>a. v \<noteq> HRef a \<Longrightarrow> stripDeprecated_h (Suc fuel) v D h = Some (v, h)"
  by (cases v) auto

lemma frepr_entries_append:
  "frepr_entries L h kvs kts \<Longrightarrow> frepr_entries L h kvs' kts' \<Longrightarrow>
   frepr_entries L h (kvs @ kvs') (kts @ kts')"
proof (induction kvs arbitrary: kts)
  case Nil
  then show ?case by (cases kts) auto
next
  case (Cons kv kvs)
  obtain k0 x0 where kv: "kv = (k0, x0)" by (cases kv)
  from Cons.prems(1) kv obtain t0 kts0 where kts: "kts = (k0, t0) # kts0"
    and r: "frepr L h x0 t0" "frepr_entries L h kvs kts0"
    by (cases kts) auto
  from Cons.IH[OF r(2) Cons.prems(2)] r(1) show ?case unfolding kv kts by simp
qed

lemma frepr_list_append:
  "frepr_list L h xs ts \<Longrightarrow> frepr_list L h xs' ts' \<Longrightarrow> frepr_list L h (xs @ xs') (ts @ ts')"
proof (induction xs arbitrary: ts)
  case Nil
  then show ?case by (cases ts) auto
next
  case (Cons x xs)
  from Cons.prems(1) obtain t0 ts0 where ts: "ts = t0 # ts0"
    and r: "frepr L h x t0" "frepr_list L h xs ts0"
    by (cases ts) auto
  from Cons.IH[OF r(2) Cons.prems(2)] r(1) show ?case unfolding ts by simp
qed

lemma frepr_entries_keys: "frepr_entries L h kvs kts \<Longrightarrow> map fst kvs = map fst kts"
  by (auto dest: frepr_repr(3) repr_entries_keys)

lemma frepr_entries_delete:
  "frepr_entries L h kvs kts \<Longrightarrow> frepr_entries L h (AList.delete k kvs) (AList.delete k kts)"
proof (induction kvs arbitrary: kts)
  case Nil
  then show ?case by (cases kts) auto
next
  case (Cons kv kvs)
  obtain k0 x0 where kv: "kv = (k0, x0)" by (cases kv)
  from Cons.prems(1) kv obtain t0 kts0 where kts: "kts = (k0, t0) # kts0"
    and r: "frepr L h x0 t0" "frepr_entries L h kvs kts0"
    by (cases kts) auto
  from Cons.IH[OF r(2)] r(1) show ?case unfolding kv kts by (cases "k = k0") simp_all
qed

lemma cell_at_update_same: "b < length h \<Longrightarrow> cell_at (h[b := c]) b = Some c"
  by (simp add: cell_at_def)

lemma cell_at_Some_length: "cell_at h a = Some c \<Longrightarrow> a < length h"
  by (simp add: cell_at_def split: if_splits)

lemma frepr_h_delete:
  assumes "frepr L h v t"
  shows "frepr L (h_delete_deprecated h v) v (delete_deprecated t)"
proof (cases t)
  case (JObj kts)
  with assms obtain a kvs where v: "v = HRef a" "L \<le> a" "cell_at h a = Some (CObj kvs)"
    "frepr_entries (Suc a) h kvs kts"
    by (auto split: hval.splits option.splits cell.splits)
  from frepr_entries_keys[OF v(4)] have keys: "map fst kvs = map fst kts" .
  show ?thesis
  proof (cases "''deprecated'' \<in> fst ` set kvs")
    case False
    then have "''deprecated'' \<notin> fst ` set kts" using keys by (metis set_map)
    then have "AList.delete ''deprecated'' kts = kts" by (simp add: AList.delete_id)
    with False v JObj show ?thesis by simp
  next
    case True
    let ?h' = "h[a := CObj (AList.delete ''deprecated'' kvs)]"
    from True v have h': "h_delete_deprecated h v = ?h'" by simp
    have se: "same_except a h ?h'" by (rule same_except_update)
    from frepr_same_except(3)[OF v(4) _ se]
    have "frepr_entries (Suc a) ?h' kvs kts" by simp
    then have "frepr_entries (Suc a) ?h' (AList.delete ''deprecated'' kvs) (AList.delete ''deprecated'' kts)"
      by (rule frepr_entries_delete)
    with v(1,2) cell_at_update_same[OF cell_at_Some_length[OF v(3)]] JObj h' show ?thesis
      by simp
  qed
next
  case (JArr ts)
  with assms show ?thesis by (auto split: hval.splits option.splits cell.splits)
qed (use assms in auto)

lemma update_absent: "k \<notin> fst ` set al \<Longrightarrow> AList.update k v al = al @ [(k, v)]"
  by (induction al) auto

lemma take_same_except:
  assumes "take r h = H0" "length H0 = r" "same_except r h h'"
  shows "take r h' = H0"
proof (rule nth_equalityI)
  from assms show "length (take r h') = length H0"
    by (auto simp: same_except_def)
next
  fix i assume "i < length (take r h')"
  then have i: "i < r" "i < length h'" by auto
  from assms(1,2) have "r \<le> length h" by (metis length_take min.cobounded1)
  with i assms(3) have "h' ! i = h ! i" by (simp add: same_except_def)
  with i assms(1) show "take r h' ! i = H0 ! i" by (metis nth_take)
qed

lemma cell_at_take:
  assumes "take r h = H0" "cell_at H0 a = Some c"
  shows "cell_at h a = Some c"
proof -
  from assms(2) have a: "a < length H0" "H0 ! a = c" by (auto simp: cell_at_def split: if_splits)
  with assms(1) have "a < r" "a < length h" by auto
  with a assms(1) show ?thesis by (auto simp: cell_at_def)
qed

lemma repr_take:
  assumes "repr H0 x t" "take r h = H0" "length H0 = r"
  shows "repr h x t"
  using assms by (auto intro: repr_prefix(1))

lemma h_set_key_cell:
  "cell_at h r = Some (CObj acc) \<Longrightarrow>
   cell_at (h_set_key h r k v) r = Some (CObj (AList.update k v acc))"
  by (auto simp: h_set_key_def cell_at_def split: if_splits)

lemma h_push_cell:
  "cell_at h r = Some (CArr acc) \<Longrightarrow> cell_at (h_push h r v) r = Some (CArr (acc @ [v]))"
  by (auto simp: h_push_def cell_at_def split: if_splits)

lemma h_delete_cell_below:
  assumes "cell_at h r = Some c" "\<forall>b. v = HRef b \<longrightarrow> L \<le> b" "r < L"
  shows "cell_at (h_delete_deprecated h v) r = Some c"
proof -
  from assms(1) have r: "r < length h" "h ! r = c" by (auto simp: cell_at_def split: if_splits)
  from h_delete_deprecated_above[OF assms(2,3) r(1)] r show ?thesis by (simp add: cell_at_def)
qed

lemma strip_keys_sim:
  assumes fc: "frame_call recurse"
    and H0: "length H0 = r" "cell_at H0 a = Some (CObj kvs)" "distinct (map fst kvs)"
  shows "(\<And>x t h. t \<in> snd ` set rest_kts \<Longrightarrow> repr h x t \<Longrightarrow>
            \<exists>v' h'. recurse x h = Some (v', h') \<and> frepr (length h) h' v' (stripDeprecated t D)) \<Longrightarrow>
         take r h = H0 \<Longrightarrow> set rest_kvs \<subseteq> set kvs \<Longrightarrow> repr_entries H0 rest_kvs rest_kts \<Longrightarrow>
         r < length h \<Longrightarrow> cell_at h r = Some (CObj acc) \<Longrightarrow> frepr_entries (Suc r) h acc done \<Longrightarrow>
         fst ` set acc \<inter> fst ` set rest_kvs = {} \<Longrightarrow> distinct (map fst rest_kvs) \<Longrightarrow>
         \<exists>h' acc'. strip_keys_h recurse a r (map fst rest_kvs) D h = Some h' \<and>
            cell_at h' r = Some (CObj acc') \<and>
            frepr_entries (Suc r) h' acc' (done @ strip_entries rest_kts D)"
proof (induction rest_kvs arbitrary: rest_kts h acc "done")
  case Nil
  then have "rest_kts = []" by (cases rest_kts) auto
  with Nil show ?case by simp
next
  case (Cons kv kvs')
  obtain k x where kv: "kv = (k, x)" by (cases kv)
  from Cons.prems(4) kv obtain t kts' where kts: "rest_kts = (k, t) # kts'"
    and rx: "repr H0 x t" and rrest: "repr_entries H0 kvs' kts'"
    by (cases rest_kts) auto
  have rec': "\<exists>v' h'. recurse x1 hh = Some (v', h') \<and> frepr (length hh) h' v' (stripDeprecated t1 D)"
    if "t1 \<in> snd ` set kts'" "repr hh x1 t1" for x1 t1 hh
  proof -
    from that(1) kts have "t1 \<in> snd ` set rest_kts" by auto
    from Cons.prems(1)[OF this that(2)] show ?thesis .
  qed
  from Cons.prems(3) kv have mem: "(k, x) \<in> set kvs" and sub': "set kvs' \<subseteq> set kvs" by auto
  from Cons.prems(9) kv have dist': "distinct (map fst kvs')" and knew: "k \<notin> fst ` set kvs'" by auto
  from Cons.prems(8) kv have kacc: "k \<notin> fst ` set acc"
    and disj': "fst ` set acc \<inter> fst ` set kvs' = {}" by auto
  have ca: "cell_at h a = Some (CObj kvs)" by (rule cell_at_take[OF Cons.prems(2) H0(2)])
  have "map_of kvs k = Some x" using H0(3) mem by (rule map_of_is_SomeI)
  with ca have val: "h_get h (HRef a) k = x" by simp
  have rh: "repr h x t" by (rule repr_take[OF rx Cons.prems(2) H0(1)])
  note mk = repr_marked[OF rh] and ir = repr_isRef[OF rh, of D]
  show ?case
  proof (cases "marked_deprecated t \<or> isRefToDeprecatedSchema t D")
    case True
    then have step: "strip_keys_h recurse a r (map fst (kv # kvs')) D h
        = strip_keys_h recurse a r (map fst kvs') D h"
      unfolding kv using val mk ir by (auto simp: Let_def simp del: h_get.simps)
    from True have se: "strip_entries rest_kts D = strip_entries kts' D" unfolding kts by auto
    from Cons.IH[OF rec' Cons.prems(2) sub' rrest Cons.prems(5,6,7) disj' dist']
    show ?thesis unfolding step se .
  next
    case False
    have "t \<in> snd ` set rest_kts" using kts by simp
    from Cons.prems(1)[OF this rh] obtain v' h1 where
      r1: "recurse x h = Some (v', h1)" and f1: "frepr (length h) h1 v' (stripDeprecated t D)"
      by auto
    from fc r1 have p: "take (length h) h1 = h" and fr: "\<forall>b. v' = HRef b \<longrightarrow> length h \<le> b"
      by (auto simp: frame_call_def)
    let ?h2 = "h_set_key h1 r k v'"
    let ?h3 = "h_delete_deprecated ?h2 v'"
    let ?acc = "acc @ [(k, v')]"
    let ?t' = "delete_deprecated (stripDeprecated t D)"
    from False have step: "strip_keys_h recurse a r (map fst (kv # kvs')) D h
        = strip_keys_h recurse a r (map fst kvs') D ?h3"
      unfolding kv using val mk ir r1 by (auto simp: Let_def simp del: h_get.simps)
    from False have se: "done @ strip_entries rest_kts D = (done @ [(k, ?t')]) @ strip_entries kts' D"
      unfolding kts by auto
    have s3: "same_except r h ?h3" by (rule same_except_turn[OF p fr])
    have t3: "take r ?h3 = H0" by (rule take_same_except[OF Cons.prems(2) H0(1) s3])
    from p have len: "length h \<le> length h1" by (rule take_prefix_length)
    have l3: "r < length ?h3" using Cons.prems(5) len by simp
    have c1: "cell_at h1 r = Some (CObj acc)" by (rule cell_at_prefix[OF p Cons.prems(6)])
    have c2: "cell_at ?h2 r = Some (CObj ?acc)"
      using h_set_key_cell[OF c1, of k v'] update_absent[OF kacc, of v'] by simp
    have c3: "cell_at ?h3 r = Some (CObj ?acc)"
      by (rule h_delete_cell_below[OF c2 fr Cons.prems(5)])
    have a3: "frepr_entries (Suc r) ?h3 acc done"
      by (rule frepr_same_except(3)[OF Cons.prems(7) _ s3]) simp
    have "frepr (length h) ?h2 v' (stripDeprecated t D)"
      by (rule frepr_same_except(1)[OF f1 Cons.prems(5) same_except_h_set_key])
    then have "frepr (length h) ?h3 v' ?t'" by (rule frepr_h_delete)
    then have n3: "frepr (Suc r) ?h3 v' ?t'" by (rule frepr_mono(1)) (use Cons.prems(5) in simp)
    have e3: "frepr_entries (Suc r) ?h3 ?acc (done @ [(k, ?t')])"
      by (rule frepr_entries_append[OF a3]) (simp add: n3)
    have d3: "fst ` set ?acc \<inter> fst ` set kvs' = {}" using disj' knew by auto
    from Cons.IH[OF rec' t3 sub' rrest l3 c3 e3 d3 dist']
    show ?thesis unfolding step se .
  qed
qed

lemma strip_indices_sim:
  assumes fc: "frame_call recurse"
    and H0: "length H0 = r" "cell_at H0 a = Some (CArr xs)"
  shows "(\<And>x t h. t \<in> set rest_ts \<Longrightarrow> repr h x t \<Longrightarrow>
            \<exists>v' h'. recurse x h = Some (v', h') \<and> frepr (length h) h' v' (stripDeprecated t D)) \<Longrightarrow>
         take r h = H0 \<Longrightarrow> i0 \<le> length xs \<Longrightarrow> repr_list H0 (drop i0 xs) rest_ts \<Longrightarrow>
         r < length h \<Longrightarrow> cell_at h r = Some (CArr acc) \<Longrightarrow> frepr_list (Suc r) h acc built \<Longrightarrow>
         \<exists>h' acc'. strip_indices_h recurse a r [i0 ..< length xs] h = Some h' \<and>
            cell_at h' r = Some (CArr acc') \<and>
            frepr_list (Suc r) h' acc' (built @ strip_elems rest_ts D)"
proof (induction rest_ts arbitrary: i0 h acc built)
  case Nil
  then have "drop i0 xs = []" by (cases "drop i0 xs") auto
  with Nil.prems(3) have "i0 = length xs" by simp
  with Nil show ?case by simp
next
  case (Cons t ts)
  from Cons.prems(4) obtain x rest where d: "drop i0 xs = x # rest"
    and rx: "repr H0 x t" and rrest: "repr_list H0 rest ts"
    by (cases "drop i0 xs") auto
  from d have i0: "i0 < length xs" by (metis drop_all list.distinct(1) not_le)
  with d have x: "xs ! i0 = x" and rest: "drop (Suc i0) xs = rest"
    by (metis Cons_nth_drop_Suc list.inject)+
  from i0 have idx: "[i0 ..< length xs] = i0 # [Suc i0 ..< length xs]" by (rule upt_conv_Cons)
  have rec': "\<exists>v' h'. recurse x1 hh = Some (v', h') \<and> frepr (length hh) h' v' (stripDeprecated t1 D)"
    if "t1 \<in> set ts" "repr hh x1 t1" for x1 t1 hh
  proof -
    from that(1) have "t1 \<in> set (t # ts)" by simp
    from Cons.prems(1)[OF this that(2)] show ?thesis .
  qed
  have ca: "cell_at h a = Some (CArr xs)" by (rule cell_at_take[OF Cons.prems(2) H0(2)])
  with i0 x have val: "h_elem h a i0 = x" by (simp add: h_elem_def)
  have rh: "repr h x t" by (rule repr_take[OF rx Cons.prems(2) H0(1)])
  have "t \<in> set (t # ts)" by simp
  from Cons.prems(1)[OF this rh] obtain v' h1 where
    r1: "recurse x h = Some (v', h1)" and f1: "frepr (length h) h1 v' (stripDeprecated t D)"
    by auto
  from fc r1 have p: "take (length h) h1 = h" by (auto simp: frame_call_def)
  let ?h2 = "h_push h1 r v'"
  from val r1 have step: "strip_indices_h recurse a r [i0 ..< length xs] h
      = strip_indices_h recurse a r [Suc i0 ..< length xs] ?h2"
    unfolding idx by simp
  have se: "built @ strip_elems (t # ts) D = (built @ [stripDeprecated t D]) @ strip_elems ts D"
    by simp
  have s2: "same_except r h ?h2"
    using same_except_prefix[OF p] same_except_h_push by (rule same_except_trans)
  have t2: "take r ?h2 = H0" by (rule take_same_except[OF Cons.prems(2) H0(1) s2])
  from p have len: "length h \<le> length h1" by (rule take_prefix_length)
  have l2: "r < length ?h2" using Cons.prems(5) len by simp
  have c1: "cell_at h1 r = Some (CArr acc)" by (rule cell_at_prefix[OF p Cons.prems(6)])
  have c2: "cell_at ?h2 r = Some (CArr (acc @ [v']))" by (rule h_push_cell[OF c1])
  have a2: "frepr_list (Suc r) ?h2 acc built"
    by (rule frepr_same_except(2)[OF Cons.prems(7) _ s2]) simp
  have "frepr (length h) ?h2 v' (stripDeprecated t D)"
    by (rule frepr_same_except(1)[OF f1 Cons.prems(5) same_except_h_push])
  then have n2: "frepr (Suc r) ?h2 v' (stripDeprecated t D)"
    by (rule frepr_mono(1)) (use Cons.prems(5) in simp)
  have e2: "frepr_list (Suc r) ?h2 (acc @ [v']) (built @ [stripDeprecated t D])"
    by (rule frepr_list_append[OF a2]) (simp add: n2)
  have r2: "repr_list H0 (drop (Suc i0) xs) ts" using rrest rest by simp
  from i0 have i1: "Suc i0 \<le> length xs" by simp
  from Cons.IH[OF rec' t2 i1 r2 l2 c2 e2]
  show ?case unfolding step se .
qed

lemma wf_entries_set: "wf_entries kts \<Longrightarrow> (k, t) \<in> set kts \<Longrightarrow> wf_json t"
  by (induction kts) auto

lemma depth_list_ge: "t \<in> set ts \<Longrightarrow> depth t \<le> depth_list ts"
  by (induction ts) auto

lemma depth_entries_ge: "(k, t) \<in> set kts \<Longrightarrow> depth t \<le> depth_entries kts"
  by (induction kts) auto

lemma cell_at_alloc [simp]: "cell_at (h @ [c]) (length h) = Some c"
  by (simp add: cell_at_def)

lemma stripDeprecated_h_sim:
  "repr h v t \<Longrightarrow> wf_json t \<Longrightarrow> depth t \<le> fuel \<Longrightarrow>
   \<exists>v' h'. stripDeprecated_h fuel v D h = Some (v', h') \<and>
      frepr (length h) h' v' (stripDeprecated t D)"
proof (induction t arbitrary: h v fuel)
  case (JArr ts)
  from JArr.prems(1) obtain a xs where v: "v = HRef a" "cell_at h a = Some (CArr xs)"
    "repr_list h xs ts"
    by (auto split: hval.splits option.splits cell.splits)
  from JArr.prems(3) obtain n where fuel: "fuel = Suc n" "depth_list ts \<le> n"
    by (cases fuel) auto
  let ?rec = "\<lambda>v h'. stripDeprecated_h n v D h'"
  let ?h0 = "h @ [CArr []]"
  have rec: "\<exists>v' h'. ?rec x1 hh = Some (v', h') \<and> frepr (length hh) h' v' (stripDeprecated t1 D)"
    if "t1 \<in> set ts" "repr hh x1 t1" for x1 t1 hh
  proof (rule JArr.IH[OF that])
    from JArr.prems(2) that(1) show "wf_json t1" by (auto dest: wf_elems_set)
    from depth_list_ge[OF that(1)] fuel(2) show "depth t1 \<le> n" by simp
  qed
  have c1: "take (length h) ?h0 = h" by simp
  have c2: "0 \<le> length xs" by simp
  have c3: "repr_list h (drop 0 xs) ts" using v(3) by simp
  have c4: "length h < length ?h0" by simp
  have c5: "cell_at ?h0 (length h) = Some (CArr [])" by simp
  have c6: "frepr_list (Suc (length h)) ?h0 [] []" by simp
  from strip_indices_sim[OF stripDeprecated_h_frame refl v(2) rec c1 c2 c3 c4 c5 c6]
  obtain h' acc' where
    l: "strip_indices_h ?rec a (length h) [0 ..< length xs] ?h0 = Some h'"
    and c: "cell_at h' (length h) = Some (CArr acc')"
    and f: "frepr_list (Suc (length h)) h' acc' (strip_elems ts D)"
    by auto
  from l v fuel have "stripDeprecated_h fuel v D h = Some (HRef (length h), h')" by simp
  moreover from c f have "frepr (length h) h' (HRef (length h)) (stripDeprecated (JArr ts) D)"
    by simp
  ultimately show ?case by blast
next
  case (JObj kts)
  from JObj.prems(1) obtain a kvs where v: "v = HRef a" "cell_at h a = Some (CObj kvs)"
    "repr_entries h kvs kts"
    by (auto split: hval.splits option.splits cell.splits)
  from JObj.prems(3) obtain n where fuel: "fuel = Suc n" "depth_entries kts \<le> n"
    by (cases fuel) auto
  from repr_entries_keys[OF v(3)] JObj.prems(2) have dist: "distinct (map fst kvs)" by simp
  let ?rec = "\<lambda>v h'. stripDeprecated_h n v D h'"
  let ?h0 = "h @ [CObj []]"
  have rec: "\<exists>v' h'. ?rec x1 hh = Some (v', h') \<and> frepr (length hh) h' v' (stripDeprecated t1 D)"
    if "t1 \<in> snd ` set kts" "repr hh x1 t1" for x1 t1 hh
  proof -
    from that(1) obtain k1 where k1: "(k1, t1) \<in> set kts" by auto
    show ?thesis
    proof (rule JObj.IH[OF k1 _ that(2)])
      show "t1 \<in> Basic_BNFs.snds (k1, t1)" by simp
      from JObj.prems(2) k1 show "wf_json t1" by (auto dest: wf_entries_set)
      from depth_entries_ge[OF k1] fuel(2) show "depth t1 \<le> n" by simp
    qed
  qed
  have c1: "take (length h) ?h0 = h" by simp
  have c2: "set kvs \<subseteq> set kvs" by simp
  have c4: "length h < length ?h0" by simp
  have c5: "cell_at ?h0 (length h) = Some (CObj [])" by simp
  have c6: "frepr_entries (Suc (length h)) ?h0 [] []" by simp
  have c7: "fst ` set [] \<inter> fst ` set kvs = {}" by simp
  from strip_keys_sim[OF stripDeprecated_h_frame refl v(2) dist rec c1 c2 v(3) c4 c5 c6 c7 dist]
  obtain h' acc' where
    l: "strip_keys_h ?rec a (length h) (map fst kvs) D ?h0 = Some h'"
    and c: "cell_at h' (length h) = Some (CObj acc')"
    and f: "frepr_entries (Suc (length h)) h' acc' (strip_entries kts D)"
    by auto
  from l v fuel have "stripDeprecated_h fuel v D h = Some (HRef (length h), h')" by simp
  moreover from c f have "frepr (length h) h' (HRef (length h)) (stripDeprecated (JObj kts) D)"
    by simp
  ultimately show ?case by blast
next
  case JNull
  then show ?case by (cases fuel) auto
next
  case (JBool b)
  then show ?case by (cases fuel) auto
next
  case (JNum n)
  then show ?case by (cases fuel) auto
next
  case (JStr s)
  then show ?case by (cases fuel) auto
qed

lemma strip_indices_mono:
  assumes "\<And>v h r. rec1 v h = Some r \<Longrightarrow> rec2 v h = Some r"
  shows "strip_indices_h rec1 a r idx h = Some h' \<Longrightarrow> strip_indices_h rec2 a r idx h = Some h'"
proof (induction idx arbitrary: h)
  case Nil
  then show ?case by simp
next
  case (Cons i idx)
  from Cons.prems obtain v h1 where r1: "rec1 (h_elem h a i) h = Some (v, h1)"
    and rest: "strip_indices_h rec1 a r idx (h_push h1 r v) = Some h'"
    by (auto split: option.splits)
  from assms[OF r1] Cons.IH[OF rest] show ?case by simp
qed

lemma strip_keys_mono:
  assumes "\<And>v h r. rec1 v h = Some r \<Longrightarrow> rec2 v h = Some r"
  shows "strip_keys_h rec1 a r keys D h = Some h' \<Longrightarrow> strip_keys_h rec2 a r keys D h = Some h'"
proof (induction keys arbitrary: h)
  case Nil
  then show ?case by simp
next
  case (Cons key keys)
  let ?val = "h_get h (HRef a) key"
  show ?case
  proof (cases "h_marked_deprecated h ?val \<or> h_isRefToDeprecatedSchema h ?val D")
    case True
    with Cons.prems have "strip_keys_h rec1 a r keys D h = Some h'"
      by (auto simp: Let_def simp del: h_get.simps split: if_splits)
    from Cons.IH[OF this] True show ?thesis
      by (auto simp: Let_def simp del: h_get.simps)
  next
    case False
    with Cons.prems obtain v h1 where r1: "rec1 ?val h = Some (v, h1)"
      and rest: "strip_keys_h rec1 a r keys D (h_delete_deprecated (h_set_key h1 r key v) v) = Some h'"
      by (auto simp: Let_def simp del: h_get.simps split: option.splits)
    from assms[OF r1] Cons.IH[OF rest] False show ?thesis
      by (auto simp: Let_def simp del: h_get.simps)
  qed
qed

lemma stripDeprecated_h_more_fuel_Suc:
  "stripDeprecated_h fuel v D h = Some r \<Longrightarrow> stripDeprecated_h (Suc fuel) v D h = Some r"
proof (induction fuel arbitrary: v h r)
  case 0
  then show ?case by simp
next
  case (Suc fuel)
  note mono = Suc.IH
  show ?case
  proof (cases v)
    case (HRef a)
    show ?thesis
    proof (cases "cell_at h a")
      case None
      with Suc.prems HRef show ?thesis by simp
    next
      case (Some c)
      show ?thesis
      proof (cases c)
        case (CArr xs)
        with Suc.prems HRef Some obtain h' where
          l: "strip_indices_h (\<lambda>v h'. stripDeprecated_h fuel v D h') a (length h)
                 [0 ..< length xs] (h @ [CArr []]) = Some h'"
          and r: "r = (HRef (length h), h')"
          by (auto split: option.splits)
        have "strip_indices_h (\<lambda>v h'. stripDeprecated_h (Suc fuel) v D h') a (length h)
                 [0 ..< length xs] (h @ [CArr []]) = Some h'"
          by (rule strip_indices_mono[OF _ l]) (rule mono)
        with HRef Some CArr r show ?thesis
          by (simp del: stripDeprecated_h.simps add: stripDeprecated_h.simps(2)[of "Suc fuel"])
      next
        case (CObj kvs)
        with Suc.prems HRef Some obtain h' where
          l: "strip_keys_h (\<lambda>v h'. stripDeprecated_h fuel v D h') a (length h)
                 (map fst kvs) D (h @ [CObj []]) = Some h'"
          and r: "r = (HRef (length h), h')"
          by (auto split: option.splits)
        have "strip_keys_h (\<lambda>v h'. stripDeprecated_h (Suc fuel) v D h') a (length h)
                 (map fst kvs) D (h @ [CObj []]) = Some h'"
          by (rule strip_keys_mono[OF _ l]) (rule mono)
        with HRef Some CObj r show ?thesis
          by (simp del: stripDeprecated_h.simps add: stripDeprecated_h.simps(2)[of "Suc fuel"])
      qed
    qed
  qed (use Suc.prems in auto)
qed

lemma stripDeprecated_h_more_fuel:
  "stripDeprecated_h fuel v D h = Some r \<Longrightarrow> fuel \<le> fuel' \<Longrightarrow>
   stripDeprecated_h fuel' v D h = Some r"
proof (induction fuel' arbitrary: fuel)
  case 0
  then show ?case by simp
next
  case (Suc fuel')
  show ?case
  proof (cases "fuel = Suc fuel'")
    case True
    with Suc.prems show ?thesis by simp
  next
    case False
    with Suc.prems have "fuel \<le> fuel'" by simp
    from Suc.IH[OF Suc.prems(1) this] show ?thesis by (rule stripDeprecated_h_more_fuel_Suc)
  qed
qed

section \<open>The claims about strip-deprecated.js\<close>

text \<open>
  C1, as the code has it. In a document whose objects have each key once: let \<open>S\<close> be a key
  of the mapping \<^verbatim>\<open>components.schemas\<close> whose schema has \<^verbatim>\<open>deprecated\<close> equal to the boolean
  \<^verbatim>\<open>true\<close>, and let \<open>S\<close> be not empty and without a line terminator (a line feed, a carriage
  return, U+2028 or U+2029). Let \<open>(k, v)\<close> be a key/value pair of a mapping anywhere in the
  document (at the position \<open>p\<close>) whose value \<open>v\<close> is a mapping with the \<^verbatim>\<open>$ref\<close>
  \<^verbatim>\<open>#/components/schemas/S\<close>, or one with \<^verbatim>\<open>type: array\<close> whose \<^verbatim>\<open>items\<close> have that \<^verbatim>\<open>$ref\<close>. Then
  the tree that \<^verbatim>\<open>stripDeprecated\<close> returns has nothing at the position of the pair (the pair
  is dropped, with no trace of what was under it), and no key/value pair of any mapping of
  the document that the filter writes has a value that refers to \<open>S\<close>.
\<close>

theorem refs_to_deprecated_schema_dropped:
  assumes wf: "wf_json t"
    and comps: "get_prop t ''components'' = Some comps"
    and schemas: "get_prop comps ''schemas'' = Some (JObj schemas)"
    and schema: "map_of schemas S = Some schema"
    and dep: "get_prop schema ''deprecated'' = Some (JBool True)"
    and name: "S \<noteq> []" "single_line S"
    and parent: "at_path t p = Some (JObj kvs)"
    and pair: "map_of kvs k = Some v"
    and ref: "refers_to v S"
  shows "at_path (stripDeprecated t (buildDeprecatedSchemaNames t)) (p @ [Key k]) = None \<and>
         (\<forall>y. filter_main t = Inr y \<longrightarrow> all_entries (\<lambda>k' v'. \<not> refers_to v' S) y)"
proof -
  let ?D = "buildDeprecatedSchemaNames t"
  have S: "S \<in> set ?D" by (rule declared_deprecated_in_names[OF comps schemas schema dep])
  have r: "isRefToDeprecatedSchema v ?D" by (rule refers_to_isRef[OF ref S name])
  have a: "at_path (stripDeprecated t ?D) (p @ [Key k]) = None"
    by (rule at_path_strip_dropped[OF wf parent pair]) (simp add: r)
  have b: "all_entries (\<lambda>k' v'. \<not> refers_to v' S) y" if f: "filter_main t = Inr y" for y
  proof -
    from f have w: "ensureWideMode (stripDeprecated t ?D) = Inr y" by (simp add: filter_main_def)
    have "all_entries (kept_clean ?D) (stripDeprecated t ?D)" by (rule strip_clean(1)[OF wf]) simp
    then have "all_entries (kept_clean ?D) y" by (rule ensureWideMode_clean[OF w])
    then show ?thesis
      by (rule all_entries_mono(1)) (auto simp: kept_clean_def dest: refers_to_isRef[OF _ S name])
  qed
  from a b show ?thesis by blast
qed

theorem refs_to_deprecated_schema_dropped_witness:
  "wf_json pets_doc \<and>
   get_prop pets_doc ''components'' = Some (JObj [(''schemas'', JObj
      [(''Old'', JObj [(''type'', JStr ''object''), (''deprecated'', JBool True)]),
       (''Pet'', pet_schema)])]) \<and>
   ''Old'' \<noteq> [] \<and> single_line ''Old'' \<and>
   at_path pets_doc [Key ''components'', Key ''schemas'', Key ''Pet'', Key ''properties'']
     = get_prop pet_schema ''properties'' \<and>
   get_opt (get_prop pet_schema ''properties'') ''olds''
     = Some (JObj [(''type'', JStr ''array''),
                   (''items'', JObj [(''$ref'', JStr ''#/components/schemas/Old'')])]) \<and>
   refers_to (JObj [(''type'', JStr ''array''),
                   (''items'', JObj [(''$ref'', JStr ''#/components/schemas/Old'')])]) ''Old'' \<and>
   at_path (stripDeprecated pets_doc (buildDeprecatedSchemaNames pets_doc))
     [Key ''components'', Key ''schemas'', Key ''Pet'', Key ''properties'', Key ''olds''] = None \<and>
   filter_main pets_doc = Inr pets_filtered \<and>
   all_entries (\<lambda>k' v'. \<not> refers_to v' ''Old'') pets_filtered"
proof -
  let ?v = "JObj [(''type'', JStr ''array''),
                   (''items'', JObj [(''$ref'', JStr ''#/components/schemas/Old'')])]"
  let ?props = "[(''id'', JObj [(''type'', JStr ''integer'')]),
               (''old'', JObj [(''$ref'', JStr ''#/components/schemas/Old'')]),
               (''olds'', ?v),
               (''tag'', JObj [(''type'', JStr ''string''), (''deprecated'', JBool True)])]"
  have wf: "wf_json pets_doc" by code_simp
  have c: "get_prop pets_doc ''components'' = Some (JObj [(''schemas'', JObj
      [(''Old'', JObj [(''type'', JStr ''object''), (''deprecated'', JBool True)]),
       (''Pet'', pet_schema)])])" by code_simp
  have s: "get_prop (JObj [(''schemas'', JObj
      [(''Old'', JObj [(''type'', JStr ''object''), (''deprecated'', JBool True)]),
       (''Pet'', pet_schema)])]) ''schemas'' = Some (JObj
      [(''Old'', JObj [(''type'', JStr ''object''), (''deprecated'', JBool True)]),
       (''Pet'', pet_schema)])" by simp
  have o: "map_of [(''Old'', JObj [(''type'', JStr ''object''), (''deprecated'', JBool True)]),
       (''Pet'', pet_schema)] ''Old'' = Some (JObj [(''type'', JStr ''object''), (''deprecated'', JBool True)])"
    by simp
  have d: "get_prop (JObj [(''type'', JStr ''object''), (''deprecated'', JBool True)]) ''deprecated''
      = Some (JBool True)" by simp
  have n1: "''Old'' \<noteq> []" by simp
  have n2: "single_line ''Old''" by code_simp
  have p: "at_path pets_doc [Key ''components'', Key ''schemas'', Key ''Pet'', Key ''properties'']
     = Some (JObj ?props)" by code_simp
  have p': "get_prop pet_schema ''properties'' = Some (JObj ?props)" by code_simp
  have m: "map_of ?props ''olds'' = Some ?v" by simp
  have r: "refers_to ?v ''Old''" by code_simp
  have f: "filter_main pets_doc = Inr pets_filtered" by code_simp
  from refs_to_deprecated_schema_dropped[OF wf c s o d n1 n2 p m r] f p p' m r wf c n2
  show ?thesis by simp
qed

text \<open>
  C1 as the claim states it fails for a schema whose name the pattern of
  \<^verbatim>\<open>getSchemaNameFromRef\<close> does not match: the dot stops at a line terminator. The schema
  \<^verbatim>\<open>"Old\nPet"\<close> is deprecated and the property \<^verbatim>\<open>info.owner\<close> has a \<^verbatim>\<open>$ref\<close> to it; the schema
  goes and the property stays, in the stripped tree and in the document that the filter
  writes.
\<close>

theorem ref_to_two_line_name_counterexample:
  "wf_json two_line_doc \<and>
   at_path two_line_doc [Key ''components'', Key ''schemas'', Key two_line_name, Key ''deprecated'']
     = Some (JBool True) \<and>
   at_path two_line_doc [Key ''info'', Key ''owner'']
     = Some (JObj [(''$ref'', schema_ref two_line_name)]) \<and>
   refers_to (JObj [(''$ref'', schema_ref two_line_name)]) two_line_name \<and>
   buildDeprecatedSchemaNames two_line_doc = [two_line_name] \<and>
   at_path (stripDeprecated two_line_doc (buildDeprecatedSchemaNames two_line_doc))
     [Key ''info'', Key ''owner''] = Some (JObj [(''$ref'', schema_ref two_line_name)]) \<and>
   filter_main two_line_doc =
     Inr (JObj [(''info'', JObj [(''owner'', JObj [(''$ref'', schema_ref two_line_name)])]),
                (''components'', JObj [(''schemas'', JObj [])])])"
  by code_simp



text \<open>
  C2. The claim: no mapping of the document that the filter writes has the key
  \<^verbatim>\<open>deprecated\<close>. The script deletes the key from the objects that it keeps under a key of
  a mapping, and from no other: an object that is an element of an array (a parameter of
  an operation) keeps its \<^verbatim>\<open>deprecated\<close> key, whether \<^verbatim>\<open>true\<close> or \<^verbatim>\<open>false\<close>, and so does the
  root mapping. The theorem runs the filter on a document with a parameter list and on a
  root that has the key.
\<close>

theorem deprecated_key_survives_in_array:
  "filter_main params_doc = Inr params_filtered \<and>
   at_path params_filtered
     [Key ''paths'', Key ''/pets'', Key ''get'', Key ''parameters'', Idx 0, Key ''deprecated'']
     = Some (JBool True) \<and>
   at_path params_filtered
     [Key ''paths'', Key ''/pets'', Key ''get'', Key ''parameters'', Idx 1, Key ''deprecated'']
     = Some (JBool False) \<and>
   filter_main (JObj [(''deprecated'', JBool False)]) = Inr (JObj [(''deprecated'', JBool False)])"
  by code_simp




section \<open>The claims about schema-to-mintlify.js\<close>













section \<open>The input of stripDeprecated\<close>

text \<open>
  C10. \<^verbatim>\<open>stripDeprecated\<close> never changes its input. Let the value \<open>v\<close> of the store \<open>h\<close> be the
  document tree \<open>t\<close>, whose objects have each key once. Then the call returns; and when it
  has returned the value \<open>v'\<close> in the store \<open>h'\<close>, every cell of \<open>h\<close> is in \<open>h'\<close> at its address
  as it was (the store has only grown: the result is in new cells, and the deletion of
  \<^verbatim>\<open>deprecated\<close> keys has changed new cells only), so that \<open>v\<close> is still the tree \<open>t\<close>, every
  mapping, sequence and scalar of it; and \<open>v'\<close> is the tree that the function computes on
  trees.
\<close>

theorem stripDeprecated_leaves_input:
  assumes r: "repr h v t" and wf: "wf_json t"
  shows "(\<exists>fuel v' h'. stripDeprecated_h fuel v D h = Some (v', h')) \<and>
         (\<forall>fuel v' h'. stripDeprecated_h fuel v D h = Some (v', h') \<longrightarrow>
            take (length h) h' = h \<and> repr h' v t \<and> repr h' v' (stripDeprecated t D))"
proof (intro conjI allI impI)
  from stripDeprecated_h_sim[OF r wf le_refl, of D]
  show "\<exists>fuel v' h'. stripDeprecated_h fuel v D h = Some (v', h')" by blast
next
  fix fuel v' h'
  assume s: "stripDeprecated_h fuel v D h = Some (v', h')"
  from stripDeprecated_h_frame[of fuel D] s show p: "take (length h) h' = h"
    by (auto simp: frame_call_def)
  from repr_prefix(1)[OF r p] show "repr h' v t" .
  let ?m = "max fuel (depth t)"
  from stripDeprecated_h_more_fuel[OF s, of ?m] have s': "stripDeprecated_h ?m v D h = Some (v', h')"
    by simp
  from stripDeprecated_h_sim[OF r wf, of ?m D] s'
  have "frepr (length h) h' v' (stripDeprecated t D)" by auto
  then show "repr h' v' (stripDeprecated t D)" by (rule frepr_repr(1))
qed

text \<open>The theorem on the example store, where the copy of the object under \<^verbatim>\<open>a\<close> loses its
  \<^verbatim>\<open>deprecated\<close> key and the object itself keeps it.\<close>

theorem stripDeprecated_leaves_input_witness:
  "repr small_store (HRef 0) small_tree \<and> wf_json small_tree \<and>
   stripDeprecated_h 3 (HRef 0) [] small_store = Some (HRef 2, small_store_after) \<and>
   take (length small_store) small_store_after = small_store \<and>
   repr small_store_after (HRef 0) small_tree \<and>
   repr small_store_after (HRef 2) (stripDeprecated small_tree [])"
proof -
  have r: "repr small_store (HRef 0) small_tree" by code_simp
  have wf: "wf_json small_tree" by code_simp
  have s: "stripDeprecated_h 3 (HRef 0) [] small_store = Some (HRef 2, small_store_after)"
    by code_simp
  from stripDeprecated_leaves_input[OF r wf, of "[]"] s r wf show ?thesis by blast
qed

end
